theory Spec2Isabelle
  imports Complex_Main "HOL-Library.AList"
begin

section \<open>JavaScript strings and values\<close>

text \<open>
  The pages of the playground directory read \<^verbatim>\<open>london_playgrounds.json\<close> and work on
  its objects with a handful of string built-ins. A JavaScript string is a sequence of
  UTF-16 code units; a code unit is modelled as a natural number, and \<open>ascii\<close> turns the
  text of a literal of the source into its code units.
\<close>

type_synonym jschar = nat

type_synonym jsstring = "jschar list"

definition ascii :: "string \<Rightarrow> jsstring" where
  "ascii s = map of_char s"

abbreviation hyphen :: jschar where
  "hyphen \<equiv> 45"

text \<open>
  The case conversions follow the Unicode tables of the JavaScript engine. On ASCII they
  map \<^verbatim>\<open>A-Z\<close> and \<^verbatim>\<open>a-z\<close> to each other and change nothing else. Outside ASCII the
  tables are not part of the repository and are a parameter of the model:
  \<open>lower_other U before c after\<close> is what \<^verbatim>\<open>toLowerCase\<close> puts for the code unit \<open>c\<close>
  that stands between \<open>before\<close> and \<open>after\<close>, and \<open>upper_other\<close> is the same for
  \<^verbatim>\<open>toUpperCase\<close>. The result may be several code units, and it may be ASCII: the real
  tables lower the Kelvin sign U+212A to \<^verbatim>\<open>k\<close> and raise U+00DF to \<^verbatim>\<open>SS\<close>.
\<close>

record unicode =
  lower_other :: "jsstring \<Rightarrow> jschar \<Rightarrow> jsstring \<Rightarrow> jsstring"
  upper_other :: "jsstring \<Rightarrow> jschar \<Rightarrow> jsstring \<Rightarrow> jsstring"

definition toLowerCase_ascii :: "jschar \<Rightarrow> jschar" where
  "toLowerCase_ascii c = (if 65 \<le> c \<and> c \<le> 90 then c + 32 else c)"

fun lower_from :: "unicode \<Rightarrow> jsstring \<Rightarrow> jsstring \<Rightarrow> jsstring" where
  "lower_from U before [] = []"
| "lower_from U before (c # cs) =
     (if c < 128 then [toLowerCase_ascii c] else lower_other U before c cs)
     @ lower_from U (before @ [c]) cs"

definition toLowerCase :: "unicode \<Rightarrow> jsstring \<Rightarrow> jsstring" where
  "toLowerCase U s = lower_from U [] s"

definition toUpperCase_ascii :: "jschar \<Rightarrow> jschar" where
  "toUpperCase_ascii c = (if 97 \<le> c \<and> c \<le> 122 then c - 32 else c)"

fun upper_from :: "unicode \<Rightarrow> jsstring \<Rightarrow> jsstring \<Rightarrow> jsstring" where
  "upper_from U before [] = []"
| "upper_from U before (c # cs) =
     (if c < 128 then [toUpperCase_ascii c] else upper_other U before c cs)
     @ upper_from U (before @ [c]) cs"

definition toUpperCase :: "unicode \<Rightarrow> jsstring \<Rightarrow> jsstring" where
  "toUpperCase U s = upper_from U [] s"

text \<open>
  Four entries of the real tables, with every other code unit outside ASCII left as it
  is; the tables on which the model is evaluated below.
\<close>

definition unicode_sample :: unicode where
  "unicode_sample =
     \<lparr>lower_other = (\<lambda>before c after.
                       if c = 0x212A then ascii ''k''
                       else if c = 0x130 then [105, 0x307]
                       else [c]),
      upper_other = (\<lambda>before c after.
                       if c = 0xDF then ascii ''SS''
                       else if c = 0x17F then ascii ''S''
                       else [c])\<rparr>"

text \<open>
  White space as \<^verbatim>\<open>String.prototype.trim\<close> sees it: the WhiteSpace and LineTerminator
  code points of ECMAScript (TAB, LF, VT, FF, CR, space, U+00A0, U+1680, U+2000 to U+200A,
  U+2028, U+2029, U+202F, U+205F, U+3000, U+FEFF).
\<close>

definition is_white_space :: "jschar \<Rightarrow> bool" where
  "is_white_space c =
     ((9 \<le> c \<and> c \<le> 13) \<or> c = 32 \<or> c = 0xA0 \<or> c = 0x1680 \<or>
      (0x2000 \<le> c \<and> c \<le> 0x200A) \<or> c = 0x2028 \<or> c = 0x2029 \<or> c = 0x202F \<or>
      c = 0x205F \<or> c = 0x3000 \<or> c = 0xFEFF)"

definition trim :: "jsstring \<Rightarrow> jsstring" where
  "trim s = rev (dropWhile is_white_space (rev (dropWhile is_white_space s)))"

fun startsWith :: "jsstring \<Rightarrow> jsstring \<Rightarrow> bool" where
  "startsWith s [] = True"
| "startsWith [] (k # ks) = False"
| "startsWith (c # cs) (k # ks) = (c = k \<and> startsWith cs ks)"

text \<open>\<^verbatim>\<open>s.includes(k)\<close>: \<open>k\<close> starts at some position of \<open>s\<close>.\<close>

fun includes_js :: "jsstring \<Rightarrow> jsstring \<Rightarrow> bool" where
  "includes_js [] k = (k = [])"
| "includes_js (c # cs) k = (startsWith (c # cs) k \<or> includes_js cs k)"

text \<open>The character class \<^verbatim>\<open>[a-z0-9]\<close>.\<close>

definition is_a_z_0_9 :: "jschar \<Rightarrow> bool" where
  "is_a_z_0_9 c = ((97 \<le> c \<and> c \<le> 122) \<or> (48 \<le> c \<and> c \<le> 57))"

text \<open>
  \<^verbatim>\<open>.replace(/[^a-z0-9]+/g, '-')\<close>: scanning from the left, every maximal run of
  code units outside \<^verbatim>\<open>[a-z0-9]\<close> is replaced by one hyphen.
\<close>

function replace_runs :: "jsstring \<Rightarrow> jsstring" where
  "replace_runs [] = []"
| "replace_runs (c # cs) =
     (if is_a_z_0_9 c then c # replace_runs cs
      else hyphen # replace_runs (dropWhile (\<lambda>d. \<not> is_a_z_0_9 d) cs))"
  by pat_completeness auto
termination
  by (relation "measure length") (auto simp: less_Suc_eq_le length_dropWhile_le)

text \<open>
  \<^verbatim>\<open>.replace(/(^-|-$)/g, '')\<close>: the first alternative can match at position 0 only and
  removes a leading hyphen; the second removes a hyphen that is the last character of what
  is left to scan.
\<close>

definition strip_lead :: "jsstring \<Rightarrow> jsstring" where
  "strip_lead s = (case s of [] \<Rightarrow> [] | c # cs \<Rightarrow> if c = hyphen then cs else s)"

definition strip_edge_hyphens :: "jsstring \<Rightarrow> jsstring" where
  "strip_edge_hyphens s =
     (let s1 = strip_lead s
      in if s1 \<noteq> [] \<and> last s1 = hyphen then butlast s1 else s1)"

text \<open>
  A value read from the JSON file, or a property that is absent (\<open>JUndefined\<close>). A number
  is carried as the text that \<^verbatim>\<open>String(x)\<close> gives for it (\<^verbatim>\<open>4.5\<close>, \<^verbatim>\<open>12345\<close>): the
  code modelled here reads numbers through their truthiness and their text only. The
  names of properties are compared and never transformed; they are kept as plain text.
\<close>

datatype jsval =
    JUndefined
  | JNull
  | JBool bool
  | JNum string
  | JStr jsstring
  | JArr "jsval list"
  | JObj "(string \<times> jsval) list"

fun truthy :: "jsval \<Rightarrow> bool" where
  "truthy JUndefined = False"
| "truthy JNull = False"
| "truthy (JBool b) = b"
| "truthy (JNum t) = (t \<noteq> ''0'' \<and> t \<noteq> ''NaN'')"
| "truthy (JStr s) = (s \<noteq> [])"
| "truthy (JArr xs) = True"
| "truthy (JObj kvs) = True"

fun typeof :: "jsval \<Rightarrow> string" where
  "typeof JUndefined = ''undefined''"
| "typeof JNull = ''object''"
| "typeof (JBool b) = ''boolean''"
| "typeof (JNum t) = ''number''"
| "typeof (JStr s) = ''string''"
| "typeof (JArr xs) = ''object''"
| "typeof (JObj kvs) = ''object''"

datatype js_error = TypeError string | Error string

fun join_comma :: "jsstring list \<Rightarrow> jsstring" where
  "join_comma [] = []"
| "join_comma [s] = s"
| "join_comma (s # t # ts) = s @ ascii '','' @ join_comma (t # ts)"

text \<open>
  The conversion a template literal applies to an interpolated value. An array is joined
  with commas, an \<^verbatim>\<open>undefined\<close> or \<^verbatim>\<open>null\<close> element giving the empty text. An object gives
  \<^verbatim>\<open>[object Object]\<close> through the \<^verbatim>\<open>toString\<close> it inherits; when it has a property of its
  own called \<^verbatim>\<open>toString\<close>, which in data read from JSON is never a function, the
  conversion finds no method that gives a primitive and throws a type error.
\<close>

fun ToString :: "jsval \<Rightarrow> js_error + jsstring"
  and ToString_elements :: "jsval list \<Rightarrow> js_error + jsstring list" where
  "ToString JUndefined = Inr (ascii ''undefined'')"
| "ToString JNull = Inr (ascii ''null'')"
| "ToString (JBool b) = Inr (if b then ascii ''true'' else ascii ''false'')"
| "ToString (JNum t) = Inr (ascii t)"
| "ToString (JStr s) = Inr s"
| "ToString (JArr xs) =
     (case ToString_elements xs of Inl e \<Rightarrow> Inl e | Inr ts \<Rightarrow> Inr (join_comma ts))"
| "ToString (JObj kvs) =
     (if map_of kvs ''toString'' \<noteq> None
      then Inl (TypeError ''Cannot convert object to primitive value'')
      else Inr (ascii ''[object Object]''))"
| "ToString_elements [] = Inr []"
| "ToString_elements (x # xs) =
     (case (if x = JUndefined \<or> x = JNull then Inr [] else ToString x) of
        Inl e \<Rightarrow> Inl e
      | Inr t \<Rightarrow> (case ToString_elements xs of Inl e \<Rightarrow> Inl e | Inr ts \<Rightarrow> Inr (t # ts)))"

text \<open>
  One entry of the JSON array: an object, as its properties in insertion order.
  Reading a property that is absent gives \<^verbatim>\<open>undefined\<close>.
\<close>

type_synonym playground = "(string \<times> jsval) list"

definition get_prop :: "playground \<Rightarrow> string \<Rightarrow> jsval" where
  "get_prop p k = (case map_of p k of None \<Rightarrow> JUndefined | Some v \<Rightarrow> v)"

section \<open>The index page\<close>

text \<open>\<^verbatim>\<open>createSlug\<close> as declared inside the index page's processing function.\<close>

definition createSlug_index :: "unicode \<Rightarrow> jsstring \<Rightarrow> jsstring" where
  "createSlug_index U name = strip_edge_hyphens (replace_runs (trim (toLowerCase U name)))"

text \<open>
  \<^verbatim>\<open>determineArea\<close>. A falsy postal code gives \<^verbatim>\<open>'Unknown'\<close>; any other value is sent
  \<^verbatim>\<open>toUpperCase()\<close>, which only a string has.
\<close>

definition determineArea :: "unicode \<Rightarrow> jsval \<Rightarrow> js_error + jsstring" where
  "determineArea U postalCode =
     (if \<not> truthy postalCode then Inr (ascii ''Unknown'')
      else case postalCode of
        JStr s \<Rightarrow>
          (let code = toUpperCase U s in
           if startsWith code (ascii ''N'') then Inr (ascii ''North London'')
           else if startsWith code (ascii ''S'') then Inr (ascii ''South London'')
           else if startsWith code (ascii ''E'') then Inr (ascii ''East London'')
           else if startsWith code (ascii ''W'') then Inr (ascii ''West London'')
           else if startsWith code (ascii ''WC'') \<or> startsWith code (ascii ''EC'')
             then Inr (ascii ''Central London'')
           else Inr (ascii ''Other London''))
      | _ \<Rightarrow> Inl (TypeError ''postalCode.toUpperCase is not a function''))"

definition amenityKeywords :: "(jsstring \<times> jsstring) list" where
  "amenityKeywords =
     [(ascii ''swing'', ascii ''Swings''),
      (ascii ''slide'', ascii ''Slides''),
      (ascii ''climb'', ascii ''Climbing Frame''),
      (ascii ''sand'', ascii ''Sandbox''),
      (ascii ''water'', ascii ''Water Play''),
      (ascii ''seat'', ascii ''Seating Area''),
      (ascii ''toilet'', ascii ''Toilets''),
      (ascii ''parking'', ascii ''Parking'')]"

text \<open>\<^verbatim>\<open>Set.prototype.add\<close> on a set kept in insertion order.\<close>

definition set_add :: "'a list \<Rightarrow> 'a \<Rightarrow> 'a list" where
  "set_add xs x = (if x \<in> set xs then xs else xs @ [x])"

text \<open>
  \<^verbatim>\<open>extractAmenities\<close>. The template literal converts the description, then the
  subtypes, and either conversion may throw; the text searched is the two texts with a
  space between them, in lower case.
\<close>

definition searchText :: "unicode \<Rightarrow> jsval \<Rightarrow> jsval \<Rightarrow> js_error + jsstring" where
  "searchText U description subtypes =
     (case ToString description of
        Inl e \<Rightarrow> Inl e
      | Inr d \<Rightarrow>
          (case ToString subtypes of
             Inl e \<Rightarrow> Inl e
           | Inr s \<Rightarrow> Inr (toLowerCase U (d @ ascii '' '' @ s))))"

definition extractAmenities :: "unicode \<Rightarrow> jsval \<Rightarrow> jsval \<Rightarrow> js_error + jsstring list" where
  "extractAmenities U description subtypes =
     (case searchText U description subtypes of
        Inl e \<Rightarrow> Inl e
      | Inr text \<Rightarrow>
          Inr (foldl (\<lambda>amenities (keyword, amenity).
                        if includes_js text keyword
                        then set_add amenities amenity else amenities)
                 [] amenityKeywords))"

text \<open>
  The two filters of \<^verbatim>\<open>processedPlaygrounds\<close> and the object literal between them. The
  literal spreads the playground and then sets \<^verbatim>\<open>slug\<close>, \<^verbatim>\<open>area\<close> and \<^verbatim>\<open>amenities\<close>, in
  this order: a property of that name is overwritten in place, a new one is appended. The
  first of the three computations that throws ends the literal.
\<close>

definition name_filter :: "playground \<Rightarrow> bool" where
  "name_filter p = (truthy (get_prop p ''name'') \<and> typeof (get_prop p ''name'') = ''string'')"

definition enrich :: "unicode \<Rightarrow> playground \<Rightarrow> js_error + playground" where
  "enrich U p =
     (case get_prop p ''name'' of
        JStr name \<Rightarrow>
          (case determineArea U (get_prop p ''postal_code'') of
             Inl e \<Rightarrow> Inl e
           | Inr area \<Rightarrow>
               (case extractAmenities U (get_prop p ''description'') (get_prop p ''subtypes'') of
                  Inl e \<Rightarrow> Inl e
                | Inr amenities \<Rightarrow>
                    Inr (AList.update ''amenities'' (JArr (map JStr amenities))
                        (AList.update ''area'' (JStr area)
                        (AList.update ''slug'' (JStr (createSlug_index U name)) p)))))
      | _ \<Rightarrow> Inl (TypeError ''name.toLowerCase is not a function''))"

definition slug_filter :: "playground \<Rightarrow> bool" where
  "slug_filter p = truthy (get_prop p ''slug'')"

text \<open>\<^verbatim>\<open>Array.prototype.map\<close> with a callback that may throw: the first throw ends the call.\<close>

fun map_throw :: "('a \<Rightarrow> js_error + 'b) \<Rightarrow> 'a list \<Rightarrow> js_error + 'b list" where
  "map_throw f [] = Inr []"
| "map_throw f (x # xs) =
     (case f x of
        Inl e \<Rightarrow> Inl e
      | Inr y \<Rightarrow> (case map_throw f xs of Inl e \<Rightarrow> Inl e | Inr ys \<Rightarrow> Inr (y # ys)))"

text \<open>
  \<^verbatim>\<open>processedPlaygrounds\<close>, as the processing function returns it. The page goes on to
  pick the featured playgrounds with \<^verbatim>\<open>processedPlaygrounds.sort(...).slice(0, 6)\<close>, which
  sorts this array in place by rating; that statement is not part of the value modelled
  here.
\<close>

definition processedPlaygrounds :: "unicode \<Rightarrow> playground list \<Rightarrow> js_error + playground list" where
  "processedPlaygrounds U playgrounds =
     (case map_throw (enrich U) (filter name_filter playgrounds) of
        Inl e \<Rightarrow> Inl e
      | Inr ps \<Rightarrow> Inr (filter slug_filter ps))"

text \<open>
  The frontmatter of \<^verbatim>\<open>PlaygroundCard.astro\<close>; \<open>None\<close> is a card rendered without the
  \<^verbatim>\<open>playground\<close> property.
\<close>

definition PlaygroundCard :: "playground option \<Rightarrow> js_error + unit" where
  "PlaygroundCard playground =
     (case playground of
        None \<Rightarrow> Inl (Error ''Invalid playground data: missing slug'')
      | Some p \<Rightarrow>
          if \<not> truthy (get_prop p ''slug'')
          then Inl (Error ''Invalid playground data: missing slug'')
          else Inr ())"

text \<open>
  The frontmatter of the index page up to the cards: the playgrounds are processed and a
  card is rendered for each record of the result. Any throw ends the page.
\<close>

definition index_page :: "unicode \<Rightarrow> playground list \<Rightarrow> js_error + playground list" where
  "index_page U playgrounds =
     (case processedPlaygrounds U playgrounds of
        Inl e \<Rightarrow> Inl e
      | Inr ps \<Rightarrow>
          (case map_throw (\<lambda>p. PlaygroundCard (Some p)) ps of
             Inl e \<Rightarrow> Inl e
           | Inr cards \<Rightarrow> Inr ps))"

section \<open>The detail page\<close>

text \<open>\<^verbatim>\<open>createSlug\<close> as declared inside \<^verbatim>\<open>getStaticPaths\<close> of \<^verbatim>\<open>playground/[slug].astro\<close>.\<close>

definition createSlug_slug_page :: "unicode \<Rightarrow> jsstring \<Rightarrow> jsstring" where
  "createSlug_slug_page U name = strip_edge_hyphens (replace_runs (trim (toLowerCase U name)))"

text \<open>
  \<^verbatim>\<open>getStaticPaths\<close>: one \<^verbatim>\<open>{params: {slug}, props: {playground}}\<close> per playground that has
  a name and a non-empty slug, as the pair of the slug and the playground. The callback
  gives \<^verbatim>\<open>null\<close> for an empty slug, after a warning on the console, and
  \<^verbatim>\<open>filter(Boolean)\<close> removes the nulls.
\<close>

definition static_path :: "unicode \<Rightarrow> playground \<Rightarrow> (jsstring \<times> playground) option" where
  "static_path U p =
     (case get_prop p ''name'' of
        JStr name \<Rightarrow>
          (let slug = createSlug_slug_page U name in
           if slug = [] then None else Some (slug, p))
      | _ \<Rightarrow> None)"

definition getStaticPaths :: "unicode \<Rightarrow> playground list \<Rightarrow> (jsstring \<times> playground) list" where
  "getStaticPaths U playgrounds =
     List.map_filter (static_path U) (filter name_filter playgrounds)"

text \<open>The guard in the frontmatter of the detail page.\<close>

definition slug_page_guard :: "playground option \<Rightarrow> js_error + unit" where
  "slug_page_guard playground =
     (case playground of
        None \<Rightarrow> Inl (Error ''Invalid playground data'')
      | Some p \<Rightarrow>
          if \<not> truthy (get_prop p ''name'')
          then Inl (Error ''Invalid playground data'')
          else Inr ())"

section \<open>The enrichment engine\<close>

text \<open>
  The enrichment engine of the repository (\<^verbatim>\<open>playground_enhancer.py\<close>) is known
  through its README and its setup guide only. Its retry wrapper, its cache and its merger
  are modelled from their specification.
\<close>

text \<open>
  Modelled from the spec: the sources that the engine queries, and the kinds of failure of
  a source call with the record kept of one.
\<close>

datatype source_id = Places | ReviewSite | CouncilSite

datatype failure_kind = NetworkError | RateLimited | AuthError | NotFound | ParseError

text \<open>
  Modelled from the spec: NetworkError and RateLimited are Transient, the other kinds are
  Permanent.
\<close>

fun is_transient :: "failure_kind \<Rightarrow> bool" where
  "is_transient NetworkError = True"
| "is_transient RateLimited = True"
| "is_transient AuthError = False"
| "is_transient NotFound = False"
| "is_transient ParseError = False"

record failure =
  failure_source :: source_id
  kind :: failure_kind
  message :: string
  attempt_count :: nat

subsection \<open>RetryPolicy\<close>

text \<open>
  Modelled from the spec: a source client, given by the outcome of its \<open>n\<close>-th invocation for the record at
  hand, \<open>n = 1, 2, \<dots>\<close>: a failure kind with its message, or a response.
\<close>

type_synonym 'r client = "nat \<Rightarrow> (failure_kind \<times> string) + 'r"

text \<open>
  Modelled from the spec: the retry wrapper of the engine, which is not among the
  sources. It calls the client, calls it again after a Transient failure while attempts
  remain, and stops at a success, at a Permanent failure or when the attempts are used
  up; the failure it returns is the last one. The second component of the result counts
  the invocations made. Backoff delays and jitter take time only and are left out.
\<close>

fun retry_loop :: "'r client \<Rightarrow> source_id \<Rightarrow> nat \<Rightarrow> nat \<Rightarrow> (failure + 'r) \<times> nat" where
  "retry_loop fetch src attempt 0 =
     (case fetch attempt of
        Inr v \<Rightarrow> (Inr v, attempt)
      | Inl (k, msg) \<Rightarrow>
          (Inl \<lparr>failure_source = src, kind = k, message = msg, attempt_count = attempt\<rparr>, attempt))"
| "retry_loop fetch src attempt (Suc remaining) =
     (case fetch attempt of
        Inr v \<Rightarrow> (Inr v, attempt)
      | Inl (k, msg) \<Rightarrow>
          if is_transient k then retry_loop fetch src (Suc attempt) remaining
          else (Inl \<lparr>failure_source = src, kind = k, message = msg, attempt_count = attempt\<rparr>,
                attempt))"

text \<open>Modelled from the spec: the default of the configured maximum attempt count.\<close>

definition default_maxAttempts :: nat where
  "default_maxAttempts = 3"

text \<open>
  Modelled from the spec: the wrapped call, with attempts numbered from 1 and
  \<open>maxAttempts\<close> of them allowed.
\<close>

definition with_retry :: "nat \<Rightarrow> 'r client \<Rightarrow> source_id \<Rightarrow> (failure + 'r) \<times> nat" where
  "with_retry maxAttempts fetch src = retry_loop fetch src 1 (maxAttempts - 1)"

subsection \<open>Cache\<close>

text \<open>
  Modelled from the spec: the input record and the cache of the engine. The key of the
  cache is the fingerprint of a record and a source, here the pair itself.
  An entry is a successful enrichment or the NotFound marker, with the time it was stored.
\<close>

record raw_record =
  name :: string
  location :: string
  postcode :: string

type_synonym fingerprint = "raw_record \<times> source_id"

datatype 'e cached = Enrichment 'e | NotFoundMarker

type_synonym 'e cache = "fingerprint \<Rightarrow> ('e cached \<times> nat) option"

type_synonym 'e network = "nat \<Rightarrow> fingerprint \<Rightarrow> failure_kind + 'e"

text \<open>
  Modelled from the spec: the lookup of the engine's cache, which is not among the
  sources. An entry is live for \<open>ttl\<close> time units after it was stored.
\<close>

definition cache_lookup :: "nat \<Rightarrow> nat \<Rightarrow> 'e cache \<Rightarrow> fingerprint \<Rightarrow> 'e cached option" where
  "cache_lookup ttl now c fp =
     (case c fp of
        None \<Rightarrow> None
      | Some (v, stored) \<Rightarrow> if now < stored + ttl then Some v else None)"

text \<open>Modelled from the spec: what a cache hit answers.\<close>

definition answer_of :: "'e cached \<Rightarrow> failure_kind + 'e" where
  "answer_of v = (case v of Enrichment e \<Rightarrow> Inr e | NotFoundMarker \<Rightarrow> Inl NotFound)"

text \<open>
  Modelled from the spec: a fetch through the cache. The lookup comes first and a live
  entry answers the fetch; otherwise the source is called, the call is counted, and a
  success or a NotFound is stored. The source's answer may depend on how many calls were
  made before.
\<close>

definition cached_fetch ::
  "nat \<Rightarrow> nat \<Rightarrow> 'e network \<Rightarrow> fingerprint \<Rightarrow> 'e cache \<times> nat \<Rightarrow> (failure_kind + 'e) \<times> ('e cache \<times> nat)" where
  "cached_fetch ttl now net fp st =
     (case st of (c, calls) \<Rightarrow>
        (case cache_lookup ttl now c fp of
           Some v \<Rightarrow> (answer_of v, (c, calls))
         | None \<Rightarrow>
             (case net calls fp of
                Inr e \<Rightarrow> (Inr e, (c(fp \<mapsto> (Enrichment e, now)), Suc calls))
              | Inl k \<Rightarrow>
                  if k = NotFound then (Inl NotFound, (c(fp \<mapsto> (NotFoundMarker, now)), Suc calls))
                  else (Inl k, (c, Suc calls)))))"

text \<open>
  Modelled from the spec: the pipeline of the engine, which is not among the sources. One
  record is fetched from every configured source in turn, and so is every record in input
  order. The output for a record is the record with the answer of each source, which is
  all that merging and classification read.
\<close>

fun fetch_sources ::
  "nat \<Rightarrow> nat \<Rightarrow> 'e network \<Rightarrow> raw_record \<Rightarrow> source_id list \<Rightarrow> 'e cache \<times> nat \<Rightarrow>
     (source_id \<times> (failure_kind + 'e)) list \<times> ('e cache \<times> nat)" where
  "fetch_sources ttl now net r [] st = ([], st)"
| "fetch_sources ttl now net r (s # ss) st =
     (case cached_fetch ttl now net (r, s) st of (res, st1) \<Rightarrow>
        (case fetch_sources ttl now net r ss st1 of (rest, st2) \<Rightarrow> ((s, res) # rest, st2)))"

fun run_pipeline ::
  "nat \<Rightarrow> nat \<Rightarrow> 'e network \<Rightarrow> source_id list \<Rightarrow> raw_record list \<Rightarrow> 'e cache \<times> nat \<Rightarrow>
     (raw_record \<times> (source_id \<times> (failure_kind + 'e)) list) list \<times> ('e cache \<times> nat)" where
  "run_pipeline ttl now net srcs [] st = ([], st)"
| "run_pipeline ttl now net srcs (r # rs) st =
     (case fetch_sources ttl now net r srcs st of (out, st1) \<Rightarrow>
        (case run_pipeline ttl now net srcs rs st1 of (outs, st2) \<Rightarrow> ((r, out) # outs, st2)))"

text \<open>Modelled from the spec: the answers that the cache stores, an enrichment or NotFound.\<close>

definition cacheable :: "failure_kind + 'e \<Rightarrow> bool" where
  "cacheable a = (case a of Inr e \<Rightarrow> True | Inl k \<Rightarrow> k = NotFound)"

text \<open>
  Modelled from the spec: a cache is warm for a run when every record and source of the
  run has a live entry.
\<close>

definition warm :: "nat \<Rightarrow> nat \<Rightarrow> source_id list \<Rightarrow> raw_record list \<Rightarrow> 'e cache \<Rightarrow> bool" where
  "warm ttl now srcs rs c =
     (\<forall>r \<in> set rs. \<forall>s \<in> set srcs. cache_lookup ttl now c (r, s) \<noteq> None)"

subsection \<open>Merger\<close>

text \<open>
  Modelled from the spec: the merger's input and provenance. A partial enrichment maps
  canonical field names to values and is tagged with its source
  and the time of retrieval.
\<close>

datatype field_value = NumV rat | TextV string

record partial_enrichment =
  source :: source_id
  retrieved_at :: nat
  field_values :: "(string \<times> field_value) list"

record provenance =
  reporters :: "source_id set"
  winner :: source_id

text \<open>
  Modelled from the spec: the merger of the engine, which is not among the sources, for a
  scalar field. Among the sources in priority order, the first one that reported the
  field wins and gives the value; the provenance holds every source that reported the
  field and the winner.
\<close>

definition reports :: "string \<Rightarrow> source_id \<Rightarrow> partial_enrichment \<Rightarrow> bool" where
  "reports f s p = (source p = s \<and> map_of (field_values p) f \<noteq> None)"

definition reported :: "partial_enrichment list \<Rightarrow> string \<Rightarrow> source_id \<Rightarrow> bool" where
  "reported ps f s = list_ex (reports f s) ps"

definition merge_scalar ::
  "source_id list \<Rightarrow> partial_enrichment list \<Rightarrow> string \<Rightarrow> (field_value \<times> provenance) option" where
  "merge_scalar priority ps f =
     (case find (reported ps f) priority of
        None \<Rightarrow> None
      | Some w \<Rightarrow>
          (case find (reports f w) ps of
             None \<Rightarrow> None
           | Some p \<Rightarrow>
               (case map_of (field_values p) f of
                  None \<Rightarrow> None
                | Some v \<Rightarrow>
                    Some (v, \<lparr>reporters = set (map source (filter (\<lambda>q. map_of (field_values q) f \<noteq> None) ps)),
                              winner = w\<rparr>))))"

section \<open>Shape of a slug\<close>

definition is_slug_char :: "jschar \<Rightarrow> bool" where
  "is_slug_char c = (is_a_z_0_9 c \<or> c = hyphen)"

fun no_double_hyphen :: "jsstring \<Rightarrow> bool" where
  "no_double_hyphen [] = True"
| "no_double_hyphen [c] = True"
| "no_double_hyphen (c # d # cs) =
     (\<not> (c = hyphen \<and> d = hyphen) \<and> no_double_hyphen (d # cs))"

section \<open>Which playgrounds the index page lists\<close>

text \<open>
  A playground passes both filters of \<^verbatim>\<open>processedPlaygrounds\<close> when its name is a
  non-empty string and the slug of that name is not empty.
\<close>

definition is_listed :: "unicode \<Rightarrow> playground \<Rightarrow> bool" where
  "is_listed U p =
     (case get_prop p ''name'' of
        JStr nm \<Rightarrow> nm \<noteq> [] \<and> createSlug_index U nm \<noteq> []
      | _ \<Rightarrow> False)"

text \<open>The properties that the object literal of \<^verbatim>\<open>processedPlaygrounds\<close> sets.\<close>

definition computed_keys :: "string set" where
  "computed_keys = {''slug'', ''area'', ''amenities''}"

text \<open>
  An output record keeps the properties of its input record: none is removed, none but
  the computed ones is added, and each one outside \<open>computed_keys\<close> has the value it had.
\<close>

definition keeps_fields :: "playground \<Rightarrow> playground \<Rightarrow> bool" where
  "keeps_fields p e =
     (set (map fst e) = set (map fst p) \<union> computed_keys \<and>
      (\<forall>k. k \<notin> computed_keys \<longrightarrow> get_prop e k = get_prop p k))"

text \<open>
  An output record has the computed properties: its \<^verbatim>\<open>slug\<close> is the slug of the input's
  name, its \<^verbatim>\<open>area\<close> the area of the input's postal code, and its \<^verbatim>\<open>amenities\<close> the
  amenities of the input's description and subtypes, whatever the input had under these
  three names.
\<close>

definition sets_computed :: "unicode \<Rightarrow> playground \<Rightarrow> playground \<Rightarrow> bool" where
  "sets_computed U p e =
     ((case get_prop p ''name'' of
         JStr nm \<Rightarrow> get_prop e ''slug'' = JStr (createSlug_index U nm)
       | _ \<Rightarrow> False) \<and>
      (case determineArea U (get_prop p ''postal_code'') of
         Inr area \<Rightarrow> get_prop e ''area'' = JStr area
       | Inl err \<Rightarrow> False) \<and>
      (case extractAmenities U (get_prop p ''description'') (get_prop p ''subtypes'') of
         Inr amenities \<Rightarrow> get_prop e ''amenities'' = JArr (map JStr amenities)
       | Inl err \<Rightarrow> False))"

section \<open>Properties of the string operations\<close>

text \<open>The definitions that the simplifier unfolds to evaluate the model on given data.\<close>

lemmas eval_defs = ascii_def toLowerCase_def toUpperCase_def toLowerCase_ascii_def
  toUpperCase_ascii_def unicode_sample_def trim_def is_white_space_def is_a_z_0_9_def
  strip_edge_hyphens_def strip_lead_def get_prop_def createSlug_index_def
  createSlug_slug_page_def determineArea_def amenityKeywords_def set_add_def searchText_def
  extractAmenities_def name_filter_def enrich_def slug_filter_def processedPlaygrounds_def
  PlaygroundCard_def index_page_def static_path_def getStaticPaths_def slug_page_guard_def
  Let_def

text \<open>
  On text that is ASCII throughout, the case conversions do not consult the tables: they
  convert code unit by code unit.
\<close>

lemma lower_from_ascii: "\<forall>c \<in> set t. c < 128 \<Longrightarrow> lower_from U before t = map toLowerCase_ascii t"
  by (induction t arbitrary: before) simp_all

lemma toLowerCase_on_ascii: "\<forall>c \<in> set t. c < 128 \<Longrightarrow> toLowerCase U t = map toLowerCase_ascii t"
  by (simp add: toLowerCase_def lower_from_ascii)

lemma upper_from_ascii: "\<forall>c \<in> set t. c < 128 \<Longrightarrow> upper_from U before t = map toUpperCase_ascii t"
  by (induction t arbitrary: before) simp_all

lemma toUpperCase_on_ascii: "\<forall>c \<in> set t. c < 128 \<Longrightarrow> toUpperCase U t = map toUpperCase_ascii t"
  by (simp add: toUpperCase_def upper_from_ascii)

lemma hyphen_not_a_z_0_9 [simp]: "\<not> is_a_z_0_9 hyphen"
  by (simp add: is_a_z_0_9_def)

lemma startsWith_single: "startsWith s [c] = (s \<noteq> [] \<and> hd s = c)"
  by (cases s) auto

lemma startsWith_iff: "startsWith s k = (\<exists>v. s = k @ v)"
  by (induction s k rule: startsWith.induct) auto

lemma includes_js_iff: "includes_js s k = (\<exists>u v. s = u @ k @ v)"
proof (induction s)
  case Nil
  then show ?case by auto
next
  case (Cons c cs)
  show ?case
  proof
    assume "includes_js (c # cs) k"
    then consider "startsWith (c # cs) k" | "includes_js cs k" by auto
    then show "\<exists>u v. c # cs = u @ k @ v"
    proof cases
      case 1
      then obtain v where "c # cs = k @ v" by (auto simp: startsWith_iff)
      then have "c # cs = [] @ k @ v" by simp
      then show ?thesis by blast
    next
      case 2
      with Cons obtain u v where "cs = u @ k @ v" by blast
      then have "c # cs = (c # u) @ k @ v" by simp
      then show ?thesis by blast
    qed
  next
    assume "\<exists>u v. c # cs = u @ k @ v"
    then obtain u v where uv: "c # cs = u @ k @ v" by blast
    show "includes_js (c # cs) k"
    proof (cases u)
      case Nil
      with uv have "startsWith (c # cs) k" by (auto simp: startsWith_iff)
      then show ?thesis by simp
    next
      case (Cons a u')
      with uv have "cs = u' @ k @ v" by simp
      with Cons.IH have "includes_js cs k" by blast
      then show ?thesis by simp
    qed
  qed
qed

lemma dropWhile_head: "dropWhile P xs = [] \<or> \<not> P (hd (dropWhile P xs))"
  using hd_dropWhile by blast

lemma replace_runs_head:
  "replace_runs xs = [] \<or>
   hd (replace_runs xs) = (if is_a_z_0_9 (hd xs) then hd xs else hyphen)"
  by (cases xs) auto

lemma replace_runs_Nil_iff: "replace_runs xs = [] \<longleftrightarrow> xs = []"
  by (cases xs) auto

lemma replace_runs_chars: "list_all is_slug_char (replace_runs xs)"
  by (induction xs rule: replace_runs.induct) (auto simp: is_slug_char_def)

lemma no_double_hyphen_Cons:
  "no_double_hyphen (c # cs) =
     ((c = hyphen \<longrightarrow> cs = [] \<or> hd cs \<noteq> hyphen) \<and> no_double_hyphen cs)"
  by (cases cs) auto

lemma replace_runs_no_double: "no_double_hyphen (replace_runs xs)"
proof (induction xs rule: replace_runs.induct)
  case 1
  then show ?case by simp
next
  case (2 c cs)
  show ?case
  proof (cases "is_a_z_0_9 c")
    case True
    with 2 show ?thesis by (auto simp: no_double_hyphen_Cons)
  next
    case False
    let ?r = "dropWhile (\<lambda>d. \<not> is_a_z_0_9 d) cs"
    have "?r = [] \<or> is_a_z_0_9 (hd ?r)"
      using dropWhile_head [of "\<lambda>d. \<not> is_a_z_0_9 d" cs] by simp
    then have "replace_runs ?r = [] \<or> hd (replace_runs ?r) \<noteq> hyphen"
      using replace_runs_head [of ?r] by (auto simp: replace_runs_Nil_iff)
    with 2 False show ?thesis by (simp add: no_double_hyphen_Cons)
  qed
qed

lemma no_double_hyphen_tl: "no_double_hyphen xs \<Longrightarrow> no_double_hyphen (tl xs)"
  by (cases xs) (auto simp: no_double_hyphen_Cons)

lemma no_double_hyphen_butlast: "no_double_hyphen xs \<Longrightarrow> no_double_hyphen (butlast xs)"
  by (induction xs rule: no_double_hyphen.induct) (auto simp: no_double_hyphen_Cons)

lemma no_double_hyphen_last:
  "no_double_hyphen xs \<Longrightarrow> xs \<noteq> [] \<Longrightarrow> last xs = hyphen \<Longrightarrow>
     butlast xs = [] \<or> last (butlast xs) \<noteq> hyphen"
  by (induction xs rule: no_double_hyphen.induct) (auto split: if_splits)

lemma list_all_butlast: "list_all P xs \<Longrightarrow> list_all P (butlast xs)"
  by (induction xs) auto

lemma list_all_tl: "list_all P xs \<Longrightarrow> list_all P (tl xs)"
  by (cases xs) auto

lemma strip_edge_hyphens_alt:
  "strip_edge_hyphens s =
     (if strip_lead s \<noteq> [] \<and> last (strip_lead s) = hyphen
      then butlast (strip_lead s) else strip_lead s)"
  by (simp add: strip_edge_hyphens_def Let_def)

lemma strip_lead_cases:
  "strip_lead s = s \<and> (s = [] \<or> hd s \<noteq> hyphen) \<or>
   strip_lead s = tl s \<and> s \<noteq> [] \<and> hd s = hyphen"
  by (cases s) (auto simp: strip_lead_def)

lemma strip_lead_props:
  assumes "list_all is_slug_char s" "no_double_hyphen s"
  shows "list_all is_slug_char (strip_lead s)" "no_double_hyphen (strip_lead s)"
        "strip_lead s = [] \<or> hd (strip_lead s) \<noteq> hyphen"
  using assms strip_lead_cases [of s]
  by (cases s; auto simp: list_all_tl no_double_hyphen_tl no_double_hyphen_Cons)+

lemma strip_props:
  assumes "list_all is_slug_char s" "no_double_hyphen s"
  shows "list_all is_slug_char (strip_edge_hyphens s)"
    and "no_double_hyphen (strip_edge_hyphens s)"
    and "\<not> startsWith (strip_edge_hyphens s) [hyphen]"
    and "\<not> startsWith (rev (strip_edge_hyphens s)) [hyphen]"
proof -
  let ?t = "strip_lead s"
  note t = strip_lead_props [OF assms]
  show "list_all is_slug_char (strip_edge_hyphens s)"
    using t(1) by (simp add: strip_edge_hyphens_alt list_all_butlast)
  show "no_double_hyphen (strip_edge_hyphens s)"
    using t(2) by (simp add: strip_edge_hyphens_alt no_double_hyphen_butlast)
  show "\<not> startsWith (strip_edge_hyphens s) [hyphen]"
    using t(3)
    by (cases ?t)
       (auto simp: strip_edge_hyphens_alt startsWith_single butlast_conv_take
             split: if_splits)
  show "\<not> startsWith (rev (strip_edge_hyphens s)) [hyphen]"
    using no_double_hyphen_last [OF t(2)]
    by (auto simp: strip_edge_hyphens_alt startsWith_single hd_rev)
qed

lemma toLowerCase_ascii_slug: "is_slug_char c \<Longrightarrow> c < 128 \<and> toLowerCase_ascii c = c"
  by (auto simp: is_slug_char_def is_a_z_0_9_def toLowerCase_ascii_def)

lemma lower_from_slug: "list_all is_slug_char t \<Longrightarrow> lower_from U before t = t"
  by (induction t arbitrary: before) (auto simp: toLowerCase_ascii_slug)

lemma toLowerCase_slug: "list_all is_slug_char t \<Longrightarrow> toLowerCase U t = t"
  by (simp add: toLowerCase_def lower_from_slug)

lemma slug_char_not_white: "is_slug_char c \<Longrightarrow> \<not> is_white_space c"
  by (auto simp: is_slug_char_def is_a_z_0_9_def is_white_space_def)

lemma dropWhile_white_slug: "list_all is_slug_char t \<Longrightarrow> dropWhile is_white_space t = t"
  by (cases t) (auto simp: slug_char_not_white)

lemma trim_slug: "list_all is_slug_char t \<Longrightarrow> trim t = t"
proof -
  assume a: "list_all is_slug_char t"
  then have "list_all is_slug_char (rev t)" by (simp add: list_all_iff)
  with a show ?thesis by (simp add: trim_def dropWhile_white_slug)
qed

lemma replace_runs_slug:
  "list_all is_slug_char t \<Longrightarrow> no_double_hyphen t \<Longrightarrow> replace_runs t = t"
proof (induction t rule: replace_runs.induct)
  case 1
  then show ?case by simp
next
  case (2 c cs)
  show ?case
  proof (cases "is_a_z_0_9 c")
    case True
    with 2 show ?thesis by (simp add: no_double_hyphen_Cons)
  next
    case False
    with 2(3) have c: "c = hyphen" by (simp add: is_slug_char_def)
    with 2(4) have "cs = [] \<or> hd cs \<noteq> hyphen" by (simp add: no_double_hyphen_Cons)
    with 2(3) have "cs = [] \<or> is_a_z_0_9 (hd cs)" by (cases cs) (auto simp: is_slug_char_def)
    then have d: "dropWhile (\<lambda>d. \<not> is_a_z_0_9 d) cs = cs" by (cases cs) auto
    from 2(3,4) have "list_all is_slug_char cs" "no_double_hyphen cs"
      by (simp_all add: no_double_hyphen_Cons)
    with 2(2) False d have "replace_runs cs = cs" by simp
    with False d c show ?thesis by simp
  qed
qed

lemma strip_edge_hyphens_id:
  "\<not> startsWith t [hyphen] \<Longrightarrow> \<not> startsWith (rev t) [hyphen] \<Longrightarrow> strip_edge_hyphens t = t"
  by (cases t)
     (auto simp: strip_edge_hyphens_alt strip_lead_def startsWith_single hd_rev split: if_splits)

text \<open>
  The slug of any text is made of \<^verbatim>\<open>[a-z0-9]\<close> and hyphens, has no two hyphens in a row
  and no hyphen at either end; the four steps leave such a string as it is.
\<close>

lemma slug_steps_shape:
  "list_all is_slug_char (strip_edge_hyphens (replace_runs x))"
  "no_double_hyphen (strip_edge_hyphens (replace_runs x))"
  "\<not> startsWith (strip_edge_hyphens (replace_runs x)) [hyphen]"
  "\<not> startsWith (rev (strip_edge_hyphens (replace_runs x))) [hyphen]"
  by (rule strip_props [OF replace_runs_chars replace_runs_no_double])+

lemma slug_steps_fixed:
  assumes "list_all is_slug_char t" "no_double_hyphen t"
    and "\<not> startsWith t [hyphen]" "\<not> startsWith (rev t) [hyphen]"
  shows "strip_edge_hyphens (replace_runs (trim (toLowerCase U t))) = t"
proof -
  have "strip_edge_hyphens (replace_runs (trim (toLowerCase U t))) =
        strip_edge_hyphens (replace_runs t)"
    using assms(1) by (simp add: toLowerCase_slug trim_slug)
  also have "\<dots> = strip_edge_hyphens t"
    using assms(1,2) by (simp add: replace_runs_slug)
  also have "\<dots> = t"
    using assms(3,4) by (rule strip_edge_hyphens_id)
  finally show ?thesis .
qed

section \<open>Slugs\<close>

text \<open>
  C9. For every input string, the slug that \<^verbatim>\<open>createSlug\<close> of the detail page returns
  contains only lowercase letters, digits and hyphens, has no two hyphens in a row, does
  not begin and does not end with a hyphen, and \<^verbatim>\<open>createSlug\<close> applied to it returns it
  unchanged. This holds whatever the case tables are outside ASCII.
\<close>

theorem createSlug_shape_idempotent:
  "list_all is_slug_char (createSlug_slug_page U s) \<and>
   no_double_hyphen (createSlug_slug_page U s) \<and>
   \<not> startsWith (createSlug_slug_page U s) [hyphen] \<and>
   \<not> startsWith (rev (createSlug_slug_page U s)) [hyphen] \<and>
   createSlug_slug_page U (createSlug_slug_page U s) = createSlug_slug_page U s"
proof -
  let ?t = "createSlug_slug_page U s"
  have sh: "list_all is_slug_char ?t" "no_double_hyphen ?t"
    "\<not> startsWith ?t [hyphen]" "\<not> startsWith (rev ?t) [hyphen]"
    unfolding createSlug_slug_page_def by (rule slug_steps_shape)+
  have "createSlug_slug_page U ?t = ?t"
    using slug_steps_fixed [OF sh] by (simp add: createSlug_slug_page_def)
  with sh show ?thesis by simp
qed

theorem createSlug_shape_idempotent_witness:
  "createSlug_slug_page unicode_sample
     (ascii ''  St. James's Par'' @ [0x212A] @ ascii '' -- Playground (North)! '') =
     ascii ''st-james-s-park-playground-north'' \<and>
   list_all is_slug_char (ascii ''st-james-s-park-playground-north'') \<and>
   no_double_hyphen (ascii ''st-james-s-park-playground-north'') \<and>
   \<not> startsWith (ascii ''st-james-s-park-playground-north'') [hyphen] \<and>
   \<not> startsWith (rev (ascii ''st-james-s-park-playground-north'')) [hyphen] \<and>
   createSlug_slug_page unicode_sample (ascii ''st-james-s-park-playground-north'') =
     ascii ''st-james-s-park-playground-north''"
proof -
  have v: "createSlug_slug_page unicode_sample
     (ascii ''  St. James's Par'' @ [0x212A] @ ascii '' -- Playground (North)! '') =
      ascii ''st-james-s-park-playground-north''"
    by (simp add: eval_defs)
  from createSlug_shape_idempotent
    [of unicode_sample "ascii ''  St. James's Par'' @ [0x212A] @ ascii '' -- Playground (North)! ''"]
  show ?thesis unfolding v by simp
qed

section \<open>Properties of the index page\<close>

lemma name_filter_iff:
  "name_filter p = (\<exists>nm. get_prop p ''name'' = JStr nm \<and> nm \<noteq> [])"
  by (cases "get_prop p ''name''") (auto simp: name_filter_def)

lemma get_prop_update:
  "get_prop (AList.update k v p) k' = (if k' = k then v else get_prop p k')"
  by (simp add: get_prop_def update_conv')

lemma enrich_InrD:
  assumes "enrich U p = Inr e"
  obtains nm area amenities where "get_prop p ''name'' = JStr nm"
    and "determineArea U (get_prop p ''postal_code'') = Inr area"
    and "extractAmenities U (get_prop p ''description'') (get_prop p ''subtypes'') = Inr amenities"
    and "e = AList.update ''amenities'' (JArr (map JStr amenities))
             (AList.update ''area'' (JStr area)
             (AList.update ''slug'' (JStr (createSlug_index U nm)) p))"
  using assms by (auto simp: enrich_def split: jsval.splits sum.splits)

lemma enrich_slug:
  assumes "enrich U p = Inr e" "get_prop p ''name'' = JStr nm"
  shows "get_prop e ''slug'' = JStr (createSlug_index U nm)"
  using assms by (auto elim!: enrich_InrD simp: get_prop_update)

lemma enrich_other:
  assumes "enrich U p = Inr e" "k \<notin> computed_keys"
  shows "get_prop e k = get_prop p k"
  using assms by (auto elim!: enrich_InrD simp: get_prop_update computed_keys_def)

lemma enrich_keys:
  assumes "enrich U p = Inr e"
  shows "set (map fst e) = set (map fst p) \<union> computed_keys"
proof -
  from assms obtain v1 v2 v3 where
    "e = AList.update ''amenities'' v1 (AList.update ''area'' v2 (AList.update ''slug'' v3 p))"
    by (rule enrich_InrD)
  then have "fst ` set e = {''amenities''} \<union> ({''area''} \<union> ({''slug''} \<union> fst ` set p))"
    by (simp only: dom_update)
  then show ?thesis by (simp add: computed_keys_def Un_commute insert_commute)
qed

lemma enrich_keeps_fields: "enrich U p = Inr e \<Longrightarrow> keeps_fields p e"
  using enrich_keys [of U p e] enrich_other [of U p e] by (simp add: keeps_fields_def)

lemma enrich_sets_computed:
  assumes "enrich U p = Inr e"
  shows "sets_computed U p e"
  using assms by (auto elim!: enrich_InrD simp: sets_computed_def get_prop_update)

lemma enrich_slug_filter:
  assumes "enrich U p = Inr e" "name_filter p"
  shows "slug_filter e = is_listed U p"
proof -
  from assms(2) obtain nm where nm: "get_prop p ''name'' = JStr nm" "nm \<noteq> []"
    by (auto simp: name_filter_iff)
  with assms(1) show ?thesis
    by (simp add: slug_filter_def is_listed_def enrich_slug)
qed

lemma is_listed_name_filter: "is_listed U p \<Longrightarrow> name_filter p"
  by (auto simp: is_listed_def name_filter_iff split: jsval.splits)

lemma map_throw_Inr:
  "map_throw f xs = Inr ys \<Longrightarrow> list_all2 (\<lambda>x y. f x = Inr y) xs ys"
  by (induction xs arbitrary: ys) (auto split: sum.splits)

lemma map_throw_Inl:
  "map_throw f xs = Inl e \<Longrightarrow> \<exists>x \<in> set xs. f x = Inl e"
  by (induction xs) (auto split: sum.splits)

lemma map_throw_total:
  "(\<And>x. x \<in> set xs \<Longrightarrow> \<exists>y. f x = Inr y) \<Longrightarrow> \<exists>ys. map_throw f xs = Inr ys"
  by (induction xs) (fastforce split: sum.splits)+

lemma determineArea_string: "\<exists>area. determineArea U (JStr s) = Inr area"
  by (simp add: determineArea_def Let_def)

lemma determineArea_falsy: "\<not> truthy v \<Longrightarrow> determineArea U v = Inr (ascii ''Unknown'')"
  by (simp add: determineArea_def)

text \<open>
  The processing completes when, for every named playground, the postal code is falsy or
  a string and the description and the subtypes convert to text; \<^verbatim>\<open>determineArea\<close>
  raises a type error on any other postal code.
\<close>

lemma enrich_completes:
  assumes "name_filter p"
    and "\<not> truthy (get_prop p ''postal_code'') \<or> typeof (get_prop p ''postal_code'') = ''string''"
    and "ToString (get_prop p ''description'') = Inr d"
    and "ToString (get_prop p ''subtypes'') = Inr s"
  shows "\<exists>e. enrich U p = Inr e"
proof -
  from assms(1) obtain nm where nm: "get_prop p ''name'' = JStr nm"
    by (auto simp: name_filter_iff)
  from assms(2) obtain area where "determineArea U (get_prop p ''postal_code'') = Inr area"
    using determineArea_string [of U] determineArea_falsy [of _ U]
    by (cases "get_prop p ''postal_code''") auto
  with nm assms(3,4) show ?thesis
    by (simp add: enrich_def extractAmenities_def searchText_def)
qed

lemma processedPlaygrounds_completes:
  assumes "\<And>p. p \<in> set ps \<Longrightarrow> name_filter p \<Longrightarrow>
     (\<not> truthy (get_prop p ''postal_code'') \<or> typeof (get_prop p ''postal_code'') = ''string'') \<and>
     (\<exists>d. ToString (get_prop p ''description'') = Inr d) \<and>
     (\<exists>s. ToString (get_prop p ''subtypes'') = Inr s)"
  shows "\<exists>out. processedPlaygrounds U ps = Inr out"
proof -
  have "\<exists>es. map_throw (enrich U) (filter name_filter ps) = Inr es"
  proof (rule map_throw_total)
    fix p assume "p \<in> set (filter name_filter ps)"
    then have p: "p \<in> set ps" "name_filter p" by simp_all
    from assms [OF p] p(2) show "\<exists>e. enrich U p = Inr e"
      by (auto intro: enrich_completes)
  qed
  then show ?thesis by (auto simp: processedPlaygrounds_def)
qed

lemma list_all2_filter:
  assumes "list_all2 R xs ys" "\<And>x y. x \<in> set xs \<Longrightarrow> R x y \<Longrightarrow> P x = Q y"
  shows "list_all2 R (filter P xs) (filter Q ys)"
  using assms by (induction xs ys rule: list_all2_induct) auto

lemma filter_listed_named: "filter (is_listed U) (filter name_filter ps) = filter (is_listed U) ps"
  by (induction ps) (auto dest: is_listed_name_filter)

text \<open>
  When \<^verbatim>\<open>processedPlaygrounds\<close> completes, its records are the enriched listed
  playgrounds, position by position.
\<close>

lemma processedPlaygrounds_Inr:
  assumes "processedPlaygrounds U ps = Inr out"
  shows "list_all2 (\<lambda>p e. enrich U p = Inr e) (filter (is_listed U) ps) out"
proof -
  from assms obtain es where es: "map_throw (enrich U) (filter name_filter ps) = Inr es"
    and out: "out = filter slug_filter es"
    by (auto simp: processedPlaygrounds_def split: sum.splits)
  from es have "list_all2 (\<lambda>p e. enrich U p = Inr e) (filter name_filter ps) es"
    by (rule map_throw_Inr)
  then have "list_all2 (\<lambda>p e. enrich U p = Inr e)
      (filter (is_listed U) (filter name_filter ps)) (filter slug_filter es)"
    by (rule list_all2_filter) (simp add: enrich_slug_filter)
  then show ?thesis unfolding out filter_listed_named .
qed

lemma processedPlaygrounds_Inl:
  assumes "processedPlaygrounds U ps = Inl err"
  shows "\<exists>p \<in> set ps. name_filter p \<and> enrich U p = Inl err"
  using assms map_throw_Inl [of "enrich U" "filter name_filter ps" err]
  by (auto simp: processedPlaygrounds_def split: sum.splits)

text \<open>
  C1, as the code has it. Whenever \<^verbatim>\<open>processedPlaygrounds\<close> completes on \<open>N\<close> input
  records, the array its filter, map, filter chain returns holds one enriched record for
  each input record whose name is a non-empty string and whose slug is not empty, in
  input order; so it holds at most \<open>N\<close> records, and fewer when a record is filtered out.
\<close>

theorem processedPlaygrounds_listed_in_order:
  assumes "processedPlaygrounds U ps = Inr out"
  shows "map Inr out = map (enrich U) (filter (is_listed U) ps) \<and>
         length out = length (filter (is_listed U) ps) \<and>
         length out \<le> length ps"
proof -
  have l: "list_all2 (\<lambda>p e. enrich U p = Inr e) (filter (is_listed U) ps) out"
    using assms by (rule processedPlaygrounds_Inr)
  then have "list_all2 (\<lambda>p e. Inr e = enrich U p) (filter (is_listed U) ps) out"
    by (rule list_all2_mono) simp
  then have m: "map Inr out = map (enrich U) (filter (is_listed U) ps)"
    by (induction rule: list_all2_induct) auto
  from l have n: "length out = length (filter (is_listed U) ps)"
    by (simp add: list_all2_lengthD)
  from m n show ?thesis by simp
qed

theorem processedPlaygrounds_listed_in_order_witness:
  "processedPlaygrounds unicode_sample
     [[(''name'', JStr (ascii ''Hyde Park Playground'')), (''postal_code'', JStr (ascii ''W2 2UH''))],
      [(''name'', JStr (ascii ''???'')), (''postal_code'', JStr (ascii ''N1 9AG''))],
      [(''name'', JStr (ascii ''Coram's Fields'')), (''postal_code'', JStr (ascii ''wc1n 1dn''))]] =
   Inr [[(''name'', JStr (ascii ''Hyde Park Playground'')), (''postal_code'', JStr (ascii ''W2 2UH'')),
         (''slug'', JStr (ascii ''hyde-park-playground'')), (''area'', JStr (ascii ''West London'')),
         (''amenities'', JArr [])],
        [(''name'', JStr (ascii ''Coram's Fields'')), (''postal_code'', JStr (ascii ''wc1n 1dn'')),
         (''slug'', JStr (ascii ''coram-s-fields'')), (''area'', JStr (ascii ''West London'')),
         (''amenities'', JArr [])]] \<and>
   map Inr
     [[(''name'', JStr (ascii ''Hyde Park Playground'')), (''postal_code'', JStr (ascii ''W2 2UH'')),
       (''slug'', JStr (ascii ''hyde-park-playground'')), (''area'', JStr (ascii ''West London'')),
       (''amenities'', JArr [])],
      [(''name'', JStr (ascii ''Coram's Fields'')), (''postal_code'', JStr (ascii ''wc1n 1dn'')),
       (''slug'', JStr (ascii ''coram-s-fields'')), (''area'', JStr (ascii ''West London'')),
       (''amenities'', JArr [])]] =
   map (enrich unicode_sample)
     (filter (is_listed unicode_sample)
       [[(''name'', JStr (ascii ''Hyde Park Playground'')), (''postal_code'', JStr (ascii ''W2 2UH''))],
        [(''name'', JStr (ascii ''???'')), (''postal_code'', JStr (ascii ''N1 9AG''))],
        [(''name'', JStr (ascii ''Coram's Fields'')), (''postal_code'', JStr (ascii ''wc1n 1dn''))]])"
proof -
  have v: "processedPlaygrounds unicode_sample
     [[(''name'', JStr (ascii ''Hyde Park Playground'')), (''postal_code'', JStr (ascii ''W2 2UH''))],
      [(''name'', JStr (ascii ''???'')), (''postal_code'', JStr (ascii ''N1 9AG''))],
      [(''name'', JStr (ascii ''Coram's Fields'')), (''postal_code'', JStr (ascii ''wc1n 1dn''))]] =
   Inr [[(''name'', JStr (ascii ''Hyde Park Playground'')), (''postal_code'', JStr (ascii ''W2 2UH'')),
         (''slug'', JStr (ascii ''hyde-park-playground'')), (''area'', JStr (ascii ''West London'')),
         (''amenities'', JArr [])],
        [(''name'', JStr (ascii ''Coram's Fields'')), (''postal_code'', JStr (ascii ''wc1n 1dn'')),
         (''slug'', JStr (ascii ''coram-s-fields'')), (''area'', JStr (ascii ''West London'')),
         (''amenities'', JArr [])]]"
    by (simp add: eval_defs)
  from processedPlaygrounds_listed_in_order [OF v] v show ?thesis by blast
qed

text \<open>
  C1 as stated fails: of two input records, the one whose name is \<^verbatim>\<open>null\<close> is dropped, and
  the output has one record.
\<close>

theorem processedPlaygrounds_drops_record:
  "processedPlaygrounds unicode_sample
     [[(''name'', JStr (ascii ''Hyde Park Playground'')), (''postal_code'', JStr (ascii ''W2 2UH''))],
      [(''name'', JNull), (''postal_code'', JStr (ascii ''N1 9AG''))]] =
   Inr [[(''name'', JStr (ascii ''Hyde Park Playground'')), (''postal_code'', JStr (ascii ''W2 2UH'')),
         (''slug'', JStr (ascii ''hyde-park-playground'')), (''area'', JStr (ascii ''West London'')),
         (''amenities'', JArr [])]] \<and>
   length [[(''name'', JStr (ascii ''Hyde Park Playground'')), (''postal_code'', JStr (ascii ''W2 2UH'')),
            (''slug'', JStr (ascii ''hyde-park-playground'')), (''area'', JStr (ascii ''West London'')),
            (''amenities'', JArr [])]] \<noteq>
   length [[(''name'', JStr (ascii ''Hyde Park Playground'')), (''postal_code'', JStr (ascii ''W2 2UH''))],
           [(''name'', JNull), (''postal_code'', JStr (ascii ''N1 9AG''))]]"
proof -
  have "processedPlaygrounds unicode_sample
     [[(''name'', JStr (ascii ''Hyde Park Playground'')), (''postal_code'', JStr (ascii ''W2 2UH''))],
      [(''name'', JNull), (''postal_code'', JStr (ascii ''N1 9AG''))]] =
   Inr [[(''name'', JStr (ascii ''Hyde Park Playground'')), (''postal_code'', JStr (ascii ''W2 2UH'')),
         (''slug'', JStr (ascii ''hyde-park-playground'')), (''area'', JStr (ascii ''West London'')),
         (''amenities'', JArr [])]]"
    by (simp add: eval_defs)
  then show ?thesis by simp
qed

text \<open>
  C2, as the code has it. Whenever \<^verbatim>\<open>processedPlaygrounds\<close> completes, each output
  record, matched by position with the listed input records, has the properties of its
  input record and \<^verbatim>\<open>slug\<close>, \<^verbatim>\<open>area\<close> and \<^verbatim>\<open>amenities\<close>, and no other. Every property
  other than these three has the value it had in the input. These three are set by the
  enrichment, added when the input has no such property and overwritten when it has one:
  \<^verbatim>\<open>slug\<close> is the slug of the input's name, \<^verbatim>\<open>area\<close> the area of the input's postal code,
  \<^verbatim>\<open>amenities\<close> the amenities of the input's description and subtypes.
\<close>

theorem processedPlaygrounds_keeps_fields:
  assumes "processedPlaygrounds U ps = Inr out"
  shows "list_all2 (\<lambda>p e. keeps_fields p e \<and> sets_computed U p e) (filter (is_listed U) ps) out"
proof -
  have "list_all2 (\<lambda>p e. enrich U p = Inr e) (filter (is_listed U) ps) out"
    using assms by (rule processedPlaygrounds_Inr)
  then show ?thesis
    by (rule list_all2_mono) (simp add: enrich_keeps_fields enrich_sets_computed)
qed

theorem processedPlaygrounds_keeps_fields_witness:
  "processedPlaygrounds unicode_sample
     [[(''name'', JStr (ascii ''Hyde Park Playground'')), (''street'', JStr (ascii ''Serpentine Road'')),
       (''postal_code'', JStr (ascii ''W2 2UH'')), (''rating'', JNum ''4.5'')]] =
   Inr [[(''name'', JStr (ascii ''Hyde Park Playground'')), (''street'', JStr (ascii ''Serpentine Road'')),
         (''postal_code'', JStr (ascii ''W2 2UH'')), (''rating'', JNum ''4.5''),
         (''slug'', JStr (ascii ''hyde-park-playground'')), (''area'', JStr (ascii ''West London'')),
         (''amenities'', JArr [])]] \<and>
   list_all2 (\<lambda>p e. keeps_fields p e \<and> sets_computed unicode_sample p e)
     (filter (is_listed unicode_sample)
       [[(''name'', JStr (ascii ''Hyde Park Playground'')), (''street'', JStr (ascii ''Serpentine Road'')),
         (''postal_code'', JStr (ascii ''W2 2UH'')), (''rating'', JNum ''4.5'')]])
     [[(''name'', JStr (ascii ''Hyde Park Playground'')), (''street'', JStr (ascii ''Serpentine Road'')),
       (''postal_code'', JStr (ascii ''W2 2UH'')), (''rating'', JNum ''4.5''),
       (''slug'', JStr (ascii ''hyde-park-playground'')), (''area'', JStr (ascii ''West London'')),
       (''amenities'', JArr [])]]"
proof -
  have v: "processedPlaygrounds unicode_sample
     [[(''name'', JStr (ascii ''Hyde Park Playground'')), (''street'', JStr (ascii ''Serpentine Road'')),
       (''postal_code'', JStr (ascii ''W2 2UH'')), (''rating'', JNum ''4.5'')]] =
   Inr [[(''name'', JStr (ascii ''Hyde Park Playground'')), (''street'', JStr (ascii ''Serpentine Road'')),
         (''postal_code'', JStr (ascii ''W2 2UH'')), (''rating'', JNum ''4.5''),
         (''slug'', JStr (ascii ''hyde-park-playground'')), (''area'', JStr (ascii ''West London'')),
         (''amenities'', JArr [])]]"
    by (simp add: eval_defs)
  from processedPlaygrounds_keeps_fields [OF v] v show ?thesis by blast
qed

text \<open>
  C2 as stated fails: an input record that has an \<^verbatim>\<open>area\<close> property of its own comes out
  with that property overwritten by the computed area.
\<close>

theorem processedPlaygrounds_overwrites_area:
  "processedPlaygrounds unicode_sample
     [[(''name'', JStr (ascii ''Hyde Park Playground'')), (''area'', JStr (ascii ''Westminster''))]] =
   Inr [[(''name'', JStr (ascii ''Hyde Park Playground'')), (''area'', JStr (ascii ''Unknown'')),
         (''slug'', JStr (ascii ''hyde-park-playground'')), (''amenities'', JArr [])]] \<and>
   get_prop [(''name'', JStr (ascii ''Hyde Park Playground'')), (''area'', JStr (ascii ''Westminster''))]
     ''area'' = JStr (ascii ''Westminster'') \<and>
   get_prop [(''name'', JStr (ascii ''Hyde Park Playground'')), (''area'', JStr (ascii ''Unknown'')),
             (''slug'', JStr (ascii ''hyde-park-playground'')), (''amenities'', JArr [])]
     ''area'' = JStr (ascii ''Unknown'') \<and>
   JStr (ascii ''Westminster'') \<noteq> JStr (ascii ''Unknown'')"
  by (simp add: eval_defs)

section \<open>Amenities\<close>

lemma set_add_set: "set (set_add xs x) = insert x (set xs)"
  by (auto simp: set_add_def)

lemma set_add_distinct: "distinct xs \<Longrightarrow> distinct (set_add xs x)"
  by (simp add: set_add_def)

text \<open>The loop over a keyword table, from any set collected so far.\<close>

lemma collect_amenities:
  "distinct acc \<Longrightarrow>
   distinct (foldl (\<lambda>amenities (keyword, amenity).
                      if P keyword then set_add amenities amenity else amenities) acc tbl) \<and>
   set (foldl (\<lambda>amenities (keyword, amenity).
                 if P keyword then set_add amenities amenity else amenities) acc tbl) =
     set acc \<union> {a. \<exists>k. (k, a) \<in> set tbl \<and> P k}"
proof (induction tbl arbitrary: acc)
  case Nil
  then show ?case by simp
next
  case (Cons ka tbl)
  obtain k a where ka: "ka = (k, a)" by (cases ka)
  show ?case
  proof (cases "P k")
    case True
    from Cons.prems have "distinct (set_add acc a)" by (rule set_add_distinct)
    from Cons.IH [OF this] True show ?thesis
      by (auto simp: ka set_add_set)
  next
    case False
    from Cons.IH [OF Cons.prems] False show ?thesis
      by (auto simp: ka)
  qed
qed

lemma amenityKeywords_distinct: "distinct (map snd amenityKeywords)"
  by (simp add: amenityKeywords_def ascii_def)

lemma amenityKeywords_functional:
  assumes "(k, a) \<in> set amenityKeywords" "(k', a) \<in> set amenityKeywords"
  shows "k' = k"
proof -
  have "inj_on snd (set amenityKeywords)"
    using amenityKeywords_distinct by (simp add: distinct_map)
  from inj_onD [OF this _ assms(2) assms(1)] show ?thesis by simp
qed

text \<open>The list that \<^verbatim>\<open>extractAmenities\<close> collects from a given search text.\<close>

lemma amenities_of_text:
  "distinct (foldl (\<lambda>amenities (keyword, amenity).
                      if includes_js t keyword
                      then set_add amenities amenity else amenities) [] amenityKeywords) \<and>
   set (foldl (\<lambda>amenities (keyword, amenity).
                 if includes_js t keyword
                 then set_add amenities amenity else amenities) [] amenityKeywords)
     \<subseteq> snd ` set amenityKeywords \<and>
   (\<forall>(keyword, amenity) \<in> set amenityKeywords.
      (amenity \<in> set (foldl (\<lambda>amenities (keyword, amenity).
                              if includes_js t keyword
                              then set_add amenities amenity else amenities) [] amenityKeywords)) =
      (\<exists>u v. t = u @ keyword @ v))"
proof -
  let ?P = "includes_js t"
  let ?A = "foldl (\<lambda>amenities (keyword, amenity).
                     if includes_js t keyword
                     then set_add amenities amenity else amenities) [] amenityKeywords"
  have c: "distinct ?A \<and> set ?A = set [] \<union> {a. \<exists>k. (k, a) \<in> set amenityKeywords \<and> ?P k}"
    by (rule collect_amenities) simp
  then have d: "distinct ?A" by (rule conjunct1)
  from c have s: "set ?A = {a. \<exists>k. (k, a) \<in> set amenityKeywords \<and> ?P k}"
    by simp
  have sub: "set ?A \<subseteq> snd ` set amenityKeywords"
  proof
    fix a assume "a \<in> set ?A"
    with s obtain k where "(k, a) \<in> set amenityKeywords" by blast
    then have "snd (k, a) \<in> snd ` set amenityKeywords" by (rule imageI)
    then show "a \<in> snd ` set amenityKeywords" by simp
  qed
  have each: "(a \<in> set ?A) = (\<exists>u v. t = u @ k @ v)"
    if m: "(k, a) \<in> set amenityKeywords" for k a
  proof -
    have "(a \<in> set ?A) = ?P k"
    proof
      assume "a \<in> set ?A"
      with s obtain k' where k': "(k', a) \<in> set amenityKeywords" "?P k'" by blast
      from m k'(1) have "k' = k" by (simp add: amenityKeywords_functional)
      with k'(2) show "?P k" by simp
    next
      assume "?P k"
      with m have "\<exists>k. (k, a) \<in> set amenityKeywords \<and> ?P k" by blast
      with s show "a \<in> set ?A" by simp
    qed
    then show ?thesis by (simp only: includes_js_iff)
  qed
  have ex: "\<forall>(keyword, amenity) \<in> set amenityKeywords.
      (amenity \<in> set ?A) = (\<exists>u v. t = u @ keyword @ v)"
  proof (rule ballI)
    fix ka assume m: "ka \<in> set amenityKeywords"
    obtain k a where ka: "ka = (k, a)" by (cases ka)
    from m have "(a \<in> set ?A) = (\<exists>u v. t = u @ k @ v)"
      unfolding ka by (rule each)
    then show "case ka of (keyword, amenity) \<Rightarrow>
      (amenity \<in> set ?A) = (\<exists>u v. t = u @ keyword @ v)"
      unfolding ka prod.case .
  qed
  from d sub ex show ?thesis by (intro conjI)
qed

text \<open>
  C4. When the description and the subtypes of a record convert to the texts \<open>d\<close> and
  \<open>s\<close>, \<^verbatim>\<open>extractAmenities\<close> returns a list that has no duplicate elements, holds
  canonical amenities only, and holds the amenity of a keyword exactly when the keyword
  occurs in the lower-cased text of \<open>d\<close>, a space and \<open>s\<close>. When one of the two
  conversions throws, \<^verbatim>\<open>extractAmenities\<close> throws the same error and there is no list.
\<close>

theorem extractAmenities_distinct_exact:
  "(ToString description = Inr d \<and> ToString subtypes = Inr s \<longrightarrow>
      (\<exists>amenities. extractAmenities U description subtypes = Inr amenities \<and>
         distinct amenities \<and>
         set amenities \<subseteq> snd ` set amenityKeywords \<and>
         (\<forall>(keyword, amenity) \<in> set amenityKeywords.
            (amenity \<in> set amenities) =
            (\<exists>u v. toLowerCase U (d @ ascii '' '' @ s) = u @ keyword @ v)))) \<and>
   (ToString description = Inl err \<longrightarrow> extractAmenities U description subtypes = Inl err) \<and>
   (ToString description = Inr d \<and> ToString subtypes = Inl err \<longrightarrow>
      extractAmenities U description subtypes = Inl err)"
proof (intro conjI impI)
  assume a: "ToString description = Inr d \<and> ToString subtypes = Inr s"
  then have e: "extractAmenities U description subtypes =
      Inr (foldl (\<lambda>amenities (keyword, amenity).
                    if includes_js (toLowerCase U (d @ ascii '' '' @ s)) keyword
                    then set_add amenities amenity else amenities) [] amenityKeywords)"
    by (simp add: extractAmenities_def searchText_def)
  show "\<exists>amenities. extractAmenities U description subtypes = Inr amenities \<and>
         distinct amenities \<and>
         set amenities \<subseteq> snd ` set amenityKeywords \<and>
         (\<forall>(keyword, amenity) \<in> set amenityKeywords.
            (amenity \<in> set amenities) =
            (\<exists>u v. toLowerCase U (d @ ascii '' '' @ s) = u @ keyword @ v))"
  proof (intro exI conjI)
    note t = amenities_of_text [of "toLowerCase U (d @ ascii '' '' @ s)"]
    show "extractAmenities U description subtypes =
      Inr (foldl (\<lambda>amenities (keyword, amenity).
                    if includes_js (toLowerCase U (d @ ascii '' '' @ s)) keyword
                    then set_add amenities amenity else amenities) [] amenityKeywords)"
      by (rule e)
    from t show "distinct (foldl (\<lambda>amenities (keyword, amenity).
                    if includes_js (toLowerCase U (d @ ascii '' '' @ s)) keyword
                    then set_add amenities amenity else amenities) [] amenityKeywords)"
      by (rule conjunct1)
    from t show "set (foldl (\<lambda>amenities (keyword, amenity).
                    if includes_js (toLowerCase U (d @ ascii '' '' @ s)) keyword
                    then set_add amenities amenity else amenities) [] amenityKeywords)
        \<subseteq> snd ` set amenityKeywords"
      by (rule conjunct2 [THEN conjunct1])
    from t show "\<forall>(keyword, amenity) \<in> set amenityKeywords.
        (amenity \<in> set (foldl (\<lambda>amenities (keyword, amenity).
                    if includes_js (toLowerCase U (d @ ascii '' '' @ s)) keyword
                    then set_add amenities amenity else amenities) [] amenityKeywords)) =
        (\<exists>u v. toLowerCase U (d @ ascii '' '' @ s) = u @ keyword @ v)"
      by (rule conjunct2 [THEN conjunct2])
  qed
next
  assume "ToString description = Inl err"
  then show "extractAmenities U description subtypes = Inl err"
    by (simp add: extractAmenities_def searchText_def)
next
  assume "ToString description = Inr d \<and> ToString subtypes = Inl err"
  then show "extractAmenities U description subtypes = Inl err"
    by (simp add: extractAmenities_def searchText_def)
qed

theorem extractAmenities_distinct_exact_witness:
  "ToString (JStr (ascii ''Great SWINGS; car par'' @ [0x212A] @ ascii ''ing'')) =
     Inr (ascii ''Great SWINGS; car par'' @ [0x212A] @ ascii ''ing'') \<and>
   ToString (JArr [JStr (ascii ''Playground''), JStr (ascii ''Water park'')]) =
     Inr (ascii ''Playground,Water park'') \<and>
   extractAmenities unicode_sample
     (JStr (ascii ''Great SWINGS; car par'' @ [0x212A] @ ascii ''ing''))
     (JArr [JStr (ascii ''Playground''), JStr (ascii ''Water park'')]) =
     Inr [ascii ''Swings'', ascii ''Water Play'', ascii ''Parking''] \<and>
   distinct [ascii ''Swings'', ascii ''Water Play'', ascii ''Parking''] \<and>
   (\<exists>u v. toLowerCase unicode_sample
            ((ascii ''Great SWINGS; car par'' @ [0x212A] @ ascii ''ing'') @ ascii '' '' @
             ascii ''Playground,Water park'') = u @ ascii ''water'' @ v)"
proof -
  let ?D = "JStr (ascii ''Great SWINGS; car par'' @ [0x212A] @ ascii ''ing'')"
  let ?S = "JArr [JStr (ascii ''Playground''), JStr (ascii ''Water park'')]"
  let ?d = "ascii ''Great SWINGS; car par'' @ [0x212A] @ ascii ''ing''"
  let ?s = "ascii ''Playground,Water park''"
  let ?L = "[ascii ''Swings'', ascii ''Water Play'', ascii ''Parking'']"
  have hd: "ToString ?D = Inr ?d" by simp
  have hs: "ToString ?S = Inr ?s" by (simp add: ascii_def)
  have v: "extractAmenities unicode_sample ?D ?S = Inr ?L"
    by (simp add: eval_defs)
  have k: "(ascii ''water'', ascii ''Water Play'') \<in> set amenityKeywords"
    by (simp add: amenityKeywords_def)
  from extractAmenities_distinct_exact
    [where description = ?D and subtypes = ?S and d = ?d and s = ?s and U = unicode_sample,
     THEN conjunct1, THEN mp, OF conjI [OF hd hs]]
  obtain amenities where a: "extractAmenities unicode_sample ?D ?S = Inr amenities"
    and d: "distinct amenities"
    and q: "\<forall>(keyword, amenity) \<in> set amenityKeywords.
            (amenity \<in> set amenities) =
            (\<exists>u v. toLowerCase unicode_sample (?d @ ascii '' '' @ ?s) = u @ keyword @ v)"
    by blast
  from a v have l: "amenities = ?L" by simp
  from bspec [OF q k]
  have "(ascii ''Water Play'' \<in> set amenities) =
      (\<exists>u v. toLowerCase unicode_sample (?d @ ascii '' '' @ ?s) = u @ ascii ''water'' @ v)"
    by simp
  moreover have "ascii ''Water Play'' \<in> set amenities"
    unfolding l by simp
  ultimately have w: "\<exists>u v. toLowerCase unicode_sample (?d @ ascii '' '' @ ?s) =
      u @ ascii ''water'' @ v"
    by (rule iffD1)
  from d have "distinct ?L" unfolding l .
  with hd hs v w show ?thesis by (intro conjI)
qed

text \<open>
  No keyword holds a space, so a keyword occurs in the text searched exactly when it
  occurs in the lower-cased description or in the lower-cased subtypes. For ASCII texts
  the lower case is the one of the letters \<^verbatim>\<open>A-Z\<close> alone.
\<close>

lemma occurs_across_separator:
  assumes "c \<notin> set k" "k \<noteq> []"
  shows "(\<exists>u v. a @ [c] @ b = u @ k @ v) =
         ((\<exists>u v. a = u @ k @ v) \<or> (\<exists>u v. b = u @ k @ v))"
proof
  assume "\<exists>u v. a @ [c] @ b = u @ k @ v"
  then obtain u v where e: "a @ c # b = u @ k @ v" by auto
  then consider w where "a = u @ w" "w @ c # b = k @ v"
    | w where "a @ w = u" "c # b = w @ k @ v"
    by (auto simp: append_eq_append_conv2)
  then show "(\<exists>u v. a = u @ k @ v) \<or> (\<exists>u v. b = u @ k @ v)"
  proof cases
    case 1
    from 1(2) consider x where "w = k @ x" | x where "w @ x = k" "c # b = x @ v"
      by (auto simp: append_eq_append_conv2)
    then show ?thesis
    proof cases
      case 1
      with \<open>a = u @ w\<close> have "a = u @ k @ x" by simp
      then show ?thesis by blast
    next
      case 2
      show ?thesis
      proof (cases x)
        case Nil
        with 2 \<open>a = u @ w\<close> have "a = u @ k @ []" by simp
        then show ?thesis by blast
      next
        case (Cons y ys)
        with 2 have "c \<in> set k" by auto
        with assms(1) show ?thesis by simp
      qed
    qed
  next
    case 2
    show ?thesis
    proof (cases w)
      case Nil
      with 2(2) assms(2) have "c \<in> set k" by (cases k) auto
      with assms(1) show ?thesis by simp
    next
      case (Cons y ys)
      with 2(2) have "b = ys @ k @ v" by simp
      then show ?thesis by blast
    qed
  qed
next
  assume "(\<exists>u v. a = u @ k @ v) \<or> (\<exists>u v. b = u @ k @ v)"
  then show "\<exists>u v. a @ [c] @ b = u @ k @ v"
  proof
    assume "\<exists>u v. a = u @ k @ v"
    then obtain u v where "a = u @ k @ v" by blast
    then have "a @ [c] @ b = u @ k @ (v @ [c] @ b)" by simp
    then show ?thesis by blast
  next
    assume "\<exists>u v. b = u @ k @ v"
    then obtain u v where "b = u @ k @ v" by blast
    then have "a @ [c] @ b = (a @ [c] @ u) @ k @ v" by simp
    then show ?thesis by blast
  qed
qed

lemma amenityKeywords_no_space:
  "(k, a) \<in> set amenityKeywords \<Longrightarrow> 32 \<notin> set k \<and> k \<noteq> []"
  by (auto simp: amenityKeywords_def ascii_def)

lemma extractAmenities_ascii:
  assumes "ToString description = Inr d" "ToString subtypes = Inr s"
    and "\<forall>c \<in> set d \<union> set s. c < 128"
    and "(k, a) \<in> set amenityKeywords"
  shows "\<exists>amenities. extractAmenities U description subtypes = Inr amenities \<and>
    (a \<in> set amenities) =
      ((\<exists>u v. map toLowerCase_ascii d = u @ k @ v) \<or>
       (\<exists>u v. map toLowerCase_ascii s = u @ k @ v))"
proof -
  let ?t = "toLowerCase U (d @ ascii '' '' @ s)"
  from assms(3) have "\<forall>c \<in> set (d @ ascii '' '' @ s). c < 128"
    by (auto simp: ascii_def)
  then have t: "?t = map toLowerCase_ascii d @ [32] @ map toLowerCase_ascii s"
    by (simp add: toLowerCase_on_ascii) (simp add: ascii_def toLowerCase_ascii_def)
  from assms(1,2) have e: "extractAmenities U description subtypes =
      Inr (foldl (\<lambda>amenities (keyword, amenity).
                    if includes_js ?t keyword
                    then set_add amenities amenity else amenities) [] amenityKeywords)"
    by (simp add: extractAmenities_def searchText_def)
  from amenities_of_text [of ?t] assms(4)
  have "(a \<in> set (foldl (\<lambda>amenities (keyword, amenity).
                    if includes_js ?t keyword
                    then set_add amenities amenity else amenities) [] amenityKeywords)) =
      (\<exists>u v. ?t = u @ k @ v)"
    by blast
  also have "\<dots> = ((\<exists>u v. map toLowerCase_ascii d = u @ k @ v) \<or>
       (\<exists>u v. map toLowerCase_ascii s = u @ k @ v))"
    unfolding t using amenityKeywords_no_space [OF assms(4)]
    by (intro occurs_across_separator) simp_all
  finally show ?thesis using e by blast
qed

section \<open>Areas\<close>

lemma startsWith_append: "startsWith s (k @ k') \<Longrightarrow> startsWith s k"
  by (auto simp: startsWith_iff)

lemma startsWith_WC: "startsWith s (ascii ''WC'') \<Longrightarrow> startsWith s (ascii ''W'')"
  using startsWith_append [of s "ascii ''W''" "ascii ''C''"] by (simp add: ascii_def)

lemma startsWith_EC: "startsWith s (ascii ''EC'') \<Longrightarrow> startsWith s (ascii ''E'')"
  using startsWith_append [of s "ascii ''E''" "ascii ''C''"] by (simp add: ascii_def)

lemma startsWith_distinct_heads:
  "startsWith s [a] \<Longrightarrow> a \<noteq> b \<Longrightarrow> \<not> startsWith s [b]"
  by (auto simp: startsWith_single)

lemma startsWith_W_only:
  assumes "startsWith c (ascii ''W'')"
  shows "\<not> startsWith c (ascii ''N'')" "\<not> startsWith c (ascii ''S'')"
    "\<not> startsWith c (ascii ''E'')"
  using assms by (auto simp: ascii_def startsWith_single)

lemma startsWith_E_only:
  assumes "startsWith c (ascii ''E'')"
  shows "\<not> startsWith c (ascii ''N'')" "\<not> startsWith c (ascii ''S'')"
  using assms by (auto simp: ascii_def startsWith_single)

lemma startsWith_nonempty: "startsWith (toUpperCase U s) (ascii ''W'') \<or>
    startsWith (toUpperCase U s) (ascii ''E'') \<Longrightarrow> s \<noteq> []"
  by (auto simp: toUpperCase_def ascii_def)

text \<open>
  C10. For every postal code string, \<^verbatim>\<open>determineArea\<close> returns one of the seven area
  names, and never \<^verbatim>\<open>'Central London'\<close>: a code that starts with \<^verbatim>\<open>WC\<close> or \<^verbatim>\<open>EC\<close>
  starts with \<^verbatim>\<open>W\<close> or \<^verbatim>\<open>E\<close> and is answered by the earlier checks, as West London and
  East London. This holds whatever the case tables are outside ASCII.
\<close>

theorem determineArea_never_central:
  "determineArea U (JStr s) \<in>
     {Inr (ascii ''Unknown''), Inr (ascii ''North London''), Inr (ascii ''South London''),
      Inr (ascii ''East London''), Inr (ascii ''West London''), Inr (ascii ''Central London''),
      Inr (ascii ''Other London'')} \<and>
   determineArea U (JStr s) \<noteq> Inr (ascii ''Central London'') \<and>
   (startsWith (toUpperCase U s) (ascii ''WC'') \<longrightarrow>
      determineArea U (JStr s) = Inr (ascii ''West London'')) \<and>
   (startsWith (toUpperCase U s) (ascii ''EC'') \<longrightarrow>
      determineArea U (JStr s) = Inr (ascii ''East London''))"
proof -
  let ?c = "toUpperCase U s"
  have wc: "determineArea U (JStr s) = Inr (ascii ''West London'')"
    if "startsWith ?c (ascii ''WC'')"
  proof -
    from that have w: "startsWith ?c (ascii ''W'')" by (rule startsWith_WC)
    with startsWith_nonempty [of U s] startsWith_W_only [OF w] show ?thesis
      by (simp add: determineArea_def)
  qed
  have ec: "determineArea U (JStr s) = Inr (ascii ''East London'')"
    if "startsWith ?c (ascii ''EC'')"
  proof -
    from that have e: "startsWith ?c (ascii ''E'')" by (rule startsWith_EC)
    with startsWith_nonempty [of U s] startsWith_E_only [OF e] show ?thesis
      by (simp add: determineArea_def)
  qed
  have names: "ascii ''Central London'' \<noteq> ascii ''Unknown''"
    "ascii ''Central London'' \<noteq> ascii ''North London''"
    "ascii ''Central London'' \<noteq> ascii ''South London''"
    "ascii ''Central London'' \<noteq> ascii ''East London''"
    "ascii ''Central London'' \<noteq> ascii ''West London''"
    "ascii ''Central London'' \<noteq> ascii ''Other London''"
    by (simp_all add: ascii_def)
  have six: "determineArea U (JStr s) \<in>
     {Inr (ascii ''Unknown''), Inr (ascii ''North London''), Inr (ascii ''South London''),
      Inr (ascii ''East London''), Inr (ascii ''West London''), Inr (ascii ''Other London'')}"
    using startsWith_WC [of ?c] startsWith_EC [of ?c]
    by (auto simp: determineArea_def Let_def)
  then have "determineArea U (JStr s) \<noteq> Inr (ascii ''Central London'')"
    using names by auto
  with six wc ec show ?thesis by auto
qed

theorem determineArea_never_central_witness:
  "startsWith (toUpperCase unicode_sample (ascii ''wc1n 1dn'')) (ascii ''WC'') \<and>
   determineArea unicode_sample (JStr (ascii ''wc1n 1dn'')) = Inr (ascii ''West London'') \<and>
   startsWith (toUpperCase unicode_sample (ascii ''EC1A 1BB'')) (ascii ''EC'') \<and>
   determineArea unicode_sample (JStr (ascii ''EC1A 1BB'')) = Inr (ascii ''East London'') \<and>
   determineArea unicode_sample (JStr (ascii ''EC1A 1BB'')) \<noteq> Inr (ascii ''Central London'')"
proof -
  have a: "startsWith (toUpperCase unicode_sample (ascii ''wc1n 1dn'')) (ascii ''WC'')"
    by (simp add: eval_defs)
  have b: "startsWith (toUpperCase unicode_sample (ascii ''EC1A 1BB'')) (ascii ''EC'')"
    by (simp add: eval_defs)
  from determineArea_never_central [of unicode_sample "ascii ''wc1n 1dn''"]
    determineArea_never_central [of unicode_sample "ascii ''EC1A 1BB''"] a b
  show ?thesis by blast
qed

text \<open>
  The upper case of U+00DF is \<^verbatim>\<open>SS\<close>, so a postal code that begins with it is answered
  as South London.
\<close>

lemma determineArea_sharp_s:
  "determineArea unicode_sample (JStr (0xDF # ascii ''9 1AA'')) = Inr (ascii ''South London'')"
  by (simp add: eval_defs)

section \<open>The detail pages behind the links\<close>

lemma list_all2_pick:
  "list_all2 R xs ys \<Longrightarrow> y \<in> set ys \<Longrightarrow> \<exists>x \<in> set xs. R x y"
  by (induction xs ys rule: list_all2_induct) auto

lemma set_map_filter_iff:
  "y \<in> set (List.map_filter f xs) \<longleftrightarrow> (\<exists>x \<in> set xs. f x = Some y)"
  by (induction xs) (auto split: option.splits)

lemma getStaticPaths_member:
  assumes "p \<in> set ps" "name_filter p" "static_path U p = Some sp"
  shows "sp \<in> set (getStaticPaths U ps)"
  using assms by (force simp: getStaticPaths_def set_map_filter_iff)

lemma createSlug_same: "createSlug_index U nm = createSlug_slug_page U nm"
  by (simp add: createSlug_index_def createSlug_slug_page_def)

lemma static_path_listed:
  assumes "is_listed U p" "get_prop p ''name'' = JStr nm"
  shows "static_path U p = Some (createSlug_index U nm, p)"
  using assms by (simp add: static_path_def is_listed_def createSlug_same)

lemma link_has_page:
  assumes "processedPlaygrounds U ps = Inr out" "e \<in> set out"
  shows "\<exists>sp \<in> set (getStaticPaths U ps). get_prop e ''slug'' = JStr (fst sp)"
proof -
  from assms obtain p where p: "p \<in> set (filter (is_listed U) ps)" "enrich U p = Inr e"
    using list_all2_pick [OF processedPlaygrounds_Inr] by blast
  then have l: "is_listed U p" and m: "p \<in> set ps" by simp_all
  from l obtain nm where nm: "get_prop p ''name'' = JStr nm"
    by (auto simp: is_listed_def split: jsval.splits)
  have "(createSlug_index U nm, p) \<in> set (getStaticPaths U ps)"
    using m is_listed_name_filter [OF l] static_path_listed [OF l nm]
    by (rule getStaticPaths_member)
  moreover have "get_prop e ''slug'' = JStr (fst (createSlug_index U nm, p))"
    using p(2) nm by (simp add: enrich_slug)
  ultimately show ?thesis by blast
qed

text \<open>
  C8. The two \<^verbatim>\<open>createSlug\<close> functions return the same slug for every name, and
  whenever the index page's processing completes, the slug of every record it lists, which
  is the target of the record's View Details link, is the slug of a path that
  \<^verbatim>\<open>getStaticPaths\<close> generates from the same data.
\<close>

theorem createSlug_agree_links_resolve:
  "createSlug_index U nm = createSlug_slug_page U nm \<and>
   (processedPlaygrounds U ps = Inr out \<longrightarrow>
      (\<forall>e \<in> set out. \<exists>sp \<in> set (getStaticPaths U ps). get_prop e ''slug'' = JStr (fst sp)))"
  using link_has_page [of U ps out] by (simp add: createSlug_same)

theorem createSlug_agree_links_resolve_witness:
  "createSlug_index unicode_sample (ascii ''Coram's Fields'') =
     createSlug_slug_page unicode_sample (ascii ''Coram's Fields'') \<and>
   processedPlaygrounds unicode_sample
     [[(''name'', JStr (ascii ''Coram's Fields'')), (''postal_code'', JStr (ascii ''WC1N 1DN''))]] =
   Inr [[(''name'', JStr (ascii ''Coram's Fields'')), (''postal_code'', JStr (ascii ''WC1N 1DN'')),
         (''slug'', JStr (ascii ''coram-s-fields'')), (''area'', JStr (ascii ''West London'')),
         (''amenities'', JArr [])]] \<and>
   (\<exists>sp \<in> set (getStaticPaths unicode_sample
        [[(''name'', JStr (ascii ''Coram's Fields'')), (''postal_code'', JStr (ascii ''WC1N 1DN''))]]).
      get_prop [(''name'', JStr (ascii ''Coram's Fields'')), (''postal_code'', JStr (ascii ''WC1N 1DN'')),
                (''slug'', JStr (ascii ''coram-s-fields'')), (''area'', JStr (ascii ''West London'')),
                (''amenities'', JArr [])] ''slug'' = JStr (fst sp))"
proof -
  have v: "processedPlaygrounds unicode_sample
     [[(''name'', JStr (ascii ''Coram's Fields'')), (''postal_code'', JStr (ascii ''WC1N 1DN''))]] =
   Inr [[(''name'', JStr (ascii ''Coram's Fields'')), (''postal_code'', JStr (ascii ''WC1N 1DN'')),
         (''slug'', JStr (ascii ''coram-s-fields'')), (''area'', JStr (ascii ''West London'')),
         (''amenities'', JArr [])]]"
    by (simp add: eval_defs)
  note t = createSlug_agree_links_resolve
    [of unicode_sample "ascii ''Coram's Fields''"
        "[[(''name'', JStr (ascii ''Coram's Fields'')), (''postal_code'', JStr (ascii ''WC1N 1DN''))]]"
        "[[(''name'', JStr (ascii ''Coram's Fields'')), (''postal_code'', JStr (ascii ''WC1N 1DN'')),
           (''slug'', JStr (ascii ''coram-s-fields'')), (''area'', JStr (ascii ''West London'')),
           (''amenities'', JArr [])]]"]
  from t have a: "createSlug_index unicode_sample (ascii ''Coram's Fields'') =
     createSlug_slug_page unicode_sample (ascii ''Coram's Fields'')"
    by (rule conjunct1)
  from t [THEN conjunct2, THEN mp, OF v]
  have b: "\<exists>sp \<in> set (getStaticPaths unicode_sample
        [[(''name'', JStr (ascii ''Coram's Fields'')), (''postal_code'', JStr (ascii ''WC1N 1DN''))]]).
      get_prop [(''name'', JStr (ascii ''Coram's Fields'')), (''postal_code'', JStr (ascii ''WC1N 1DN'')),
                (''slug'', JStr (ascii ''coram-s-fields'')), (''area'', JStr (ascii ''West London'')),
                (''amenities'', JArr [])] ''slug'' = JStr (fst sp)"
    by (rule bspec) simp
  from a v b show ?thesis by (intro conjI)
qed

section \<open>Records with missing or invalid data\<close>

lemma map_throw_append:
  "map_throw f (xs @ ys) =
     (case map_throw f xs of
        Inl e \<Rightarrow> Inl e
      | Inr as \<Rightarrow> (case map_throw f ys of Inl e \<Rightarrow> Inl e | Inr bs \<Rightarrow> Inr (as @ bs)))"
  by (induction xs) (auto split: sum.splits)

lemma map_throw_all_Inr:
  "(\<And>x. x \<in> set xs \<Longrightarrow> f x = Inr (g x)) \<Longrightarrow> map_throw f xs = Inr (map g xs)"
  by (induction xs) simp_all

lemma map_filter_append:
  "List.map_filter f (xs @ ys) = List.map_filter f xs @ List.map_filter f ys"
  by (simp add: List.map_filter_def)

text \<open>
  A playground without a usable name is skipped by both pages, and one whose slug is
  empty is skipped by \<^verbatim>\<open>getStaticPaths\<close> and, once its enrichment has completed, by the
  index page: the result is the one for the input without that playground.
\<close>

lemma unnamed_skipped:
  assumes "\<not> name_filter p"
  shows "processedPlaygrounds U (xs @ p # ys) = processedPlaygrounds U (xs @ ys)"
    and "getStaticPaths U (xs @ p # ys) = getStaticPaths U (xs @ ys)"
  using assms by (simp_all add: processedPlaygrounds_def getStaticPaths_def)

lemma pathless_skipped:
  assumes "static_path U p = None"
  shows "getStaticPaths U (xs @ p # ys) = getStaticPaths U (xs @ ys)"
  using assms by (simp add: getStaticPaths_def map_filter_append)

lemma slugless_skipped:
  assumes "enrich U p = Inr e" "\<not> slug_filter e"
  shows "processedPlaygrounds U (xs @ p # ys) = processedPlaygrounds U (xs @ ys)"
proof (cases "name_filter p")
  case False
  then show ?thesis by (rule unnamed_skipped)
next
  case True
  have "map_throw (enrich U) (p # filter name_filter ys) =
        (case map_throw (enrich U) (filter name_filter ys) of
           Inl err \<Rightarrow> Inl err | Inr bs \<Rightarrow> Inr (e # bs))"
    using assms(1) by simp
  with True assms(2) show ?thesis
    by (simp add: processedPlaygrounds_def map_throw_append split: sum.splits)
qed

text \<open>
  The guards of the two components never fire on what the pages hand them: every record
  of \<^verbatim>\<open>processedPlaygrounds\<close> has a slug and every path of \<^verbatim>\<open>getStaticPaths\<close> a name. So
  the cards add no throw to the index page.
\<close>

lemma listed_passes_card:
  assumes "processedPlaygrounds U ps = Inr out" "e \<in> set out"
  shows "PlaygroundCard (Some e) = Inr ()"
proof -
  from assms have "slug_filter e"
    by (auto simp: processedPlaygrounds_def split: sum.splits)
  then show ?thesis by (simp add: PlaygroundCard_def slug_filter_def)
qed

lemma path_passes_guard:
  assumes "sp \<in> set (getStaticPaths U ps)"
  shows "slug_page_guard (Some (snd sp)) = Inr ()"
proof -
  from assms obtain p where p: "name_filter p" "static_path U p = Some sp"
    by (auto simp: getStaticPaths_def set_map_filter_iff)
  from p(2) have "snd sp = p"
    by (auto simp: static_path_def Let_def split: jsval.splits if_splits)
  with p(1) show ?thesis by (simp add: slug_page_guard_def name_filter_def)
qed

lemma index_page_eq: "index_page U ps = processedPlaygrounds U ps"
proof (cases "processedPlaygrounds U ps")
  case (Inl err)
  then show ?thesis by (simp add: index_page_def)
next
  case (Inr out)
  have "map_throw (\<lambda>p. PlaygroundCard (Some p)) out = Inr (map (\<lambda>p. ()) out)"
    by (rule map_throw_all_Inr) (rule listed_passes_card [OF Inr])
  with Inr show ?thesis by (simp add: index_page_def)
qed

text \<open>
  What does end the page is a throw of the enrichment. \<^verbatim>\<open>determineArea\<close> tests the
  postal code for being falsy only, where the filter on the name also tests for a string;
  a postal code that is truthy and not a string has no \<^verbatim>\<open>toUpperCase\<close>.
\<close>

lemma enrich_postal_code_throws:
  assumes "name_filter p" "truthy (get_prop p ''postal_code'')"
    and "typeof (get_prop p ''postal_code'') \<noteq> ''string''"
  shows "enrich U p = Inl (TypeError ''postalCode.toUpperCase is not a function'')"
proof -
  from assms(1) obtain nm where nm: "get_prop p ''name'' = JStr nm"
    by (auto simp: name_filter_iff)
  from assms(2,3) have "determineArea U (get_prop p ''postal_code'') =
      Inl (TypeError ''postalCode.toUpperCase is not a function'')"
    by (cases "get_prop p ''postal_code''") (simp_all add: determineArea_def)
  with nm show ?thesis by (simp add: enrich_def)
qed

lemma list_all2_pick_left:
  "list_all2 R xs ys \<Longrightarrow> x \<in> set xs \<Longrightarrow> \<exists>y \<in> set ys. R x y"
  by (induction xs ys rule: list_all2_induct) auto

lemma index_page_aborts:
  assumes "p \<in> set ps" "name_filter p" "enrich U p = Inl err"
  shows "\<exists>err'. index_page U ps = Inl err'"
proof (cases "map_throw (enrich U) (filter name_filter ps)")
  case (Inl err')
  then show ?thesis by (simp add: index_page_eq processedPlaygrounds_def)
next
  case (Inr es)
  from assms(1,2) have "p \<in> set (filter name_filter ps)" by simp
  with map_throw_Inr [OF Inr] have "\<exists>e \<in> set es. enrich U p = Inr e"
    by (rule list_all2_pick_left)
  with assms(3) show ?thesis by simp
qed

text \<open>
  C5 is not met by the index page. Of three records, the second has the number 12345 as
  its postal code and is otherwise valid: \<^verbatim>\<open>determineArea\<close> throws a type error for it,
  nothing catches the error, and the page ends with it, without a record for the first
  and the third playground and without any failure data. Without the second record the
  page generates the other two.
\<close>

theorem index_page_aborts_on_numeric_postal_code:
  "index_page unicode_sample
     [[(''name'', JStr (ascii ''Hyde Park Playground'')), (''postal_code'', JStr (ascii ''W2 2UH''))],
      [(''name'', JStr (ascii ''Burgess Park'')), (''postal_code'', JNum ''12345'')],
      [(''name'', JStr (ascii ''Coram's Fields'')), (''postal_code'', JStr (ascii ''WC1N 1DN''))]] =
   Inl (TypeError ''postalCode.toUpperCase is not a function'') \<and>
   index_page unicode_sample
     [[(''name'', JStr (ascii ''Hyde Park Playground'')), (''postal_code'', JStr (ascii ''W2 2UH''))],
      [(''name'', JStr (ascii ''Coram's Fields'')), (''postal_code'', JStr (ascii ''WC1N 1DN''))]] =
   Inr [[(''name'', JStr (ascii ''Hyde Park Playground'')), (''postal_code'', JStr (ascii ''W2 2UH'')),
         (''slug'', JStr (ascii ''hyde-park-playground'')), (''area'', JStr (ascii ''West London'')),
         (''amenities'', JArr [])],
        [(''name'', JStr (ascii ''Coram's Fields'')), (''postal_code'', JStr (ascii ''WC1N 1DN'')),
         (''slug'', JStr (ascii ''coram-s-fields'')), (''area'', JStr (ascii ''West London'')),
         (''amenities'', JArr [])]]"
  by (simp add: eval_defs)

section \<open>The retry wrapper\<close>

lemma retry_loop_calls: "attempt \<le> snd (retry_loop fetch src attempt remaining) \<and>
    snd (retry_loop fetch src attempt remaining) \<le> attempt + remaining"
proof (induction remaining arbitrary: attempt)
  case 0
  show ?case by (auto split: sum.splits prod.splits)
next
  case (Suc remaining)
  from Suc [of "Suc attempt"] show ?case
    by (auto split: sum.splits prod.splits)
qed

lemma retry_loop_all_transient:
  assumes "\<forall>n. \<exists>k msg. fetch n = Inl (k, msg) \<and> is_transient k"
  shows "\<exists>k msg. fetch (attempt + remaining) = Inl (k, msg) \<and> is_transient k \<and>
     retry_loop fetch src attempt remaining =
       (Inl \<lparr>failure_source = src, kind = k, message = msg,
             attempt_count = attempt + remaining\<rparr>, attempt + remaining)"
proof (induction remaining arbitrary: attempt)
  case 0
  from assms obtain k msg where "fetch attempt = Inl (k, msg)" "is_transient k" by blast
  then show ?case by simp
next
  case (Suc remaining)
  from assms obtain k msg where "fetch attempt = Inl (k, msg)" "is_transient k" by blast
  with Suc [of "Suc attempt"] show ?case by simp
qed

lemma retry_loop_permanent:
  assumes "fetch attempt = Inl (k, msg)" "\<not> is_transient k"
  shows "retry_loop fetch src attempt remaining =
     (Inl \<lparr>failure_source = src, kind = k, message = msg, attempt_count = attempt\<rparr>, attempt)"
  using assms by (cases remaining) simp_all

text \<open>
  C7. With a maximum attempt count of at least one, the retry wrapper invokes the source
  client at most that many times for a record. A client that always fails with a
  Transient failure is invoked exactly that many times, and the wrapper returns its last
  failure; a client whose first answer is a Permanent failure is invoked once.
\<close>

theorem with_retry_bound:
  assumes "0 < maxAttempts"
  shows "snd (with_retry maxAttempts fetch src) \<le> maxAttempts \<and>
    ((\<forall>n. \<exists>k msg. fetch n = Inl (k, msg) \<and> is_transient k) \<longrightarrow>
       (\<exists>k msg. fetch maxAttempts = Inl (k, msg) \<and> is_transient k \<and>
          with_retry maxAttempts fetch src =
            (Inl \<lparr>failure_source = src, kind = k, message = msg,
                  attempt_count = maxAttempts\<rparr>, maxAttempts))) \<and>
    (\<forall>k msg. fetch 1 = Inl (k, msg) \<and> \<not> is_transient k \<longrightarrow>
       with_retry maxAttempts fetch src =
         (Inl \<lparr>failure_source = src, kind = k, message = msg, attempt_count = 1\<rparr>, 1))"
proof (intro conjI impI allI)
  from assms have m: "1 + (maxAttempts - 1) = maxAttempts" by simp
  show "snd (with_retry maxAttempts fetch src) \<le> maxAttempts"
    using retry_loop_calls [of 1 fetch src "maxAttempts - 1"] m
    by (simp add: with_retry_def)
  show "\<exists>k msg. fetch maxAttempts = Inl (k, msg) \<and> is_transient k \<and>
          with_retry maxAttempts fetch src =
            (Inl \<lparr>failure_source = src, kind = k, message = msg,
                  attempt_count = maxAttempts\<rparr>, maxAttempts)"
    if "\<forall>n. \<exists>k msg. fetch n = Inl (k, msg) \<and> is_transient k"
    using retry_loop_all_transient [OF that, of 1 "maxAttempts - 1" src] m
    by (simp add: with_retry_def)
  show "with_retry maxAttempts fetch src =
         (Inl \<lparr>failure_source = src, kind = k, message = msg, attempt_count = 1\<rparr>, 1)"
    if "fetch 1 = Inl (k, msg) \<and> \<not> is_transient k" for k msg
    using that by (simp add: with_retry_def retry_loop_permanent)
qed

theorem with_retry_bound_witness:
  "0 < default_maxAttempts \<and>
   with_retry default_maxAttempts (\<lambda>n. Inl (NetworkError, ''timed out'') :: (failure_kind \<times> string) + unit) Places =
     (Inl \<lparr>failure_source = Places, kind = NetworkError, message = ''timed out'',
           attempt_count = 3\<rparr>, 3) \<and>
   with_retry default_maxAttempts (\<lambda>n. Inl (AuthError, ''denied'') :: (failure_kind \<times> string) + unit) Places =
     (Inl \<lparr>failure_source = Places, kind = AuthError, message = ''denied'',
           attempt_count = 1\<rparr>, 1)"
proof -
  have h: "0 < default_maxAttempts" by (simp add: default_maxAttempts_def)
  have d: "default_maxAttempts = 3" by (simp add: default_maxAttempts_def)
  note t1 = with_retry_bound [OF h,
    of "\<lambda>n. Inl (NetworkError, ''timed out'') :: (failure_kind \<times> string) + unit" Places]
  note t2 = with_retry_bound [OF h,
    of "\<lambda>n. Inl (AuthError, ''denied'') :: (failure_kind \<times> string) + unit" Places]
  from t1 have w1: "with_retry default_maxAttempts
      (\<lambda>n. Inl (NetworkError, ''timed out'') :: (failure_kind \<times> string) + unit) Places =
     (Inl \<lparr>failure_source = Places, kind = NetworkError, message = ''timed out'',
           attempt_count = 3\<rparr>, 3)"
    by (simp add: d)
  from t2 have w2: "with_retry default_maxAttempts
      (\<lambda>n. Inl (AuthError, ''denied'') :: (failure_kind \<times> string) + unit) Places =
     (Inl \<lparr>failure_source = Places, kind = AuthError, message = ''denied'',
           attempt_count = 1\<rparr>, 1)"
    by simp
  from h w1 w2 show ?thesis by (intro conjI)
qed

section \<open>The cache\<close>

lemma cached_fetch_hit:
  assumes "cache_lookup ttl now c fp \<noteq> None"
  shows "cached_fetch ttl now net fp (c, calls) =
           (answer_of (the (cache_lookup ttl now c fp)), (c, calls))"
  using assms by (auto simp: cached_fetch_def)

lemma fetch_sources_warm:
  assumes "\<forall>s \<in> set ss. cache_lookup ttl now c (r, s) \<noteq> None"
  shows "fetch_sources ttl now net r ss (c, calls) =
           (map (\<lambda>s. (s, answer_of (the (cache_lookup ttl now c (r, s))))) ss, (c, calls))"
  using assms by (induction ss) (simp_all add: cached_fetch_hit)

lemma run_pipeline_warm:
  assumes "warm ttl now srcs rs c"
  shows "run_pipeline ttl now net srcs rs (c, calls) =
           (map (\<lambda>r. (r, map (\<lambda>s. (s, answer_of (the (cache_lookup ttl now c (r, s))))) srcs)) rs,
            (c, calls))"
  using assms
proof (induction rs)
  case Nil
  then show ?case by simp
next
  case (Cons r rs)
  from Cons.prems have "\<forall>s \<in> set srcs. cache_lookup ttl now c (r, s) \<noteq> None"
    and "warm ttl now srcs rs c"
    by (simp_all add: warm_def)
  with Cons.IH show ?case by (simp add: fetch_sources_warm)
qed

text \<open>
  C6. A run of the pipeline over a warm cache issues no network call and leaves the cache
  as it is; its output is read from the cache alone, so it is the same whatever the
  sources would answer, and a second run from the state the first one leaves gives the
  same output, again without a call.
\<close>

theorem warm_run_idempotent:
  assumes "warm ttl now srcs rs c"
  shows "snd (run_pipeline ttl now net srcs rs (c, 0)) = (c, 0) \<and>
    fst (run_pipeline ttl now net' srcs rs (c, 0)) = fst (run_pipeline ttl now net srcs rs (c, 0)) \<and>
    run_pipeline ttl now net' srcs rs (snd (run_pipeline ttl now net srcs rs (c, 0))) =
      run_pipeline ttl now net srcs rs (c, 0)"
  by (simp add: run_pipeline_warm [OF assms])

theorem warm_run_idempotent_witness:
  "warm 30 5 [Places, ReviewSite]
     [\<lparr>name = ''Hyde Park Playground'', location = ''London'', postcode = ''W2 2UH''\<rparr>]
     (Map.empty
        ((\<lparr>name = ''Hyde Park Playground'', location = ''London'', postcode = ''W2 2UH''\<rparr>, Places)
           \<mapsto> (Enrichment ''rating 4.5'', 2),
         (\<lparr>name = ''Hyde Park Playground'', location = ''London'', postcode = ''W2 2UH''\<rparr>, ReviewSite)
           \<mapsto> (NotFoundMarker, 3))) \<and>
   run_pipeline 30 5 (\<lambda>calls fp. Inl NetworkError) [Places, ReviewSite]
     [\<lparr>name = ''Hyde Park Playground'', location = ''London'', postcode = ''W2 2UH''\<rparr>]
     (Map.empty
        ((\<lparr>name = ''Hyde Park Playground'', location = ''London'', postcode = ''W2 2UH''\<rparr>, Places)
           \<mapsto> (Enrichment ''rating 4.5'', 2),
         (\<lparr>name = ''Hyde Park Playground'', location = ''London'', postcode = ''W2 2UH''\<rparr>, ReviewSite)
           \<mapsto> (NotFoundMarker, 3)), 0) =
   ([(\<lparr>name = ''Hyde Park Playground'', location = ''London'', postcode = ''W2 2UH''\<rparr>,
      [(Places, Inr ''rating 4.5''), (ReviewSite, Inl NotFound)])],
    (Map.empty
        ((\<lparr>name = ''Hyde Park Playground'', location = ''London'', postcode = ''W2 2UH''\<rparr>, Places)
           \<mapsto> (Enrichment ''rating 4.5'', 2),
         (\<lparr>name = ''Hyde Park Playground'', location = ''London'', postcode = ''W2 2UH''\<rparr>, ReviewSite)
           \<mapsto> (NotFoundMarker, 3)), 0))"
proof -
  let ?r = "\<lparr>name = ''Hyde Park Playground'', location = ''London'', postcode = ''W2 2UH''\<rparr>"
  let ?c = "Map.empty((?r, Places) \<mapsto> (Enrichment ''rating 4.5'', 2),
                      (?r, ReviewSite) \<mapsto> (NotFoundMarker, 3))"
  let ?net = "\<lambda>calls fp. Inl NetworkError :: failure_kind + string"
  have w: "warm 30 5 [Places, ReviewSite] [?r] ?c"
    by (simp add: warm_def cache_lookup_def)
  have o: "fst (run_pipeline 30 5 ?net [Places, ReviewSite] [?r] (?c, 0)) =
      [(?r, [(Places, Inr ''rating 4.5''), (ReviewSite, Inl NotFound)])]"
    by (simp add: cached_fetch_def cache_lookup_def answer_of_def)
  from warm_run_idempotent [OF w, of ?net ?net]
  have "snd (run_pipeline 30 5 ?net [Places, ReviewSite] [?r] (?c, 0)) = (?c, 0)"
    by (rule conjunct1)
  with o have "run_pipeline 30 5 ?net [Places, ReviewSite] [?r] (?c, 0) =
      ([(?r, [(Places, Inr ''rating 4.5''), (ReviewSite, Inl NotFound)])], (?c, 0))"
    by (simp add: prod_eq_iff)
  with w show ?thesis by (intro conjI)
qed

text \<open>
  How a cache becomes warm: a run in which every source answers with an enrichment or
  with NotFound stores all its answers, so the cache it leaves is warm for the records of
  the run, and the output of a run that follows is the output of this one.
\<close>

lemma cached_fetch_keeps:
  assumes "cached_fetch ttl now net fp st = (a, st')"
    and "cache_lookup ttl now (fst st) fp' = Some v"
  shows "cache_lookup ttl now (fst st') fp' = Some v"
proof (cases "cache_lookup ttl now (fst st) fp")
  case (Some u)
  with assms show ?thesis
    by (cases st) (auto simp: cached_fetch_def)
next
  case None
  with assms(2) have ne: "fp' \<noteq> fp" by auto
  obtain c calls where st: "st = (c, calls)" by (cases st)
  from assms(1) None st ne have "fst st' fp' = c fp'"
    by (auto simp: cached_fetch_def split: sum.splits if_splits)
  with assms(2) st show ?thesis by (simp add: cache_lookup_def)
qed

lemma cached_fetch_stores:
  assumes "0 < ttl" "cached_fetch ttl now net fp st = (a, st')" "cacheable a"
  shows "\<exists>v. cache_lookup ttl now (fst st') fp = Some v \<and> answer_of v = a"
proof (cases "cache_lookup ttl now (fst st) fp")
  case (Some u)
  with assms(2) show ?thesis
    by (cases st) (auto simp: cached_fetch_def)
next
  case None
  obtain c calls where st: "st = (c, calls)" by (cases st)
  from assms None st show ?thesis
    by (auto simp: cached_fetch_def cache_lookup_def answer_of_def cacheable_def
             split: sum.splits if_splits)
qed

lemma fetch_sources_keeps:
  assumes "fetch_sources ttl now net r ss st = (res, st')"
    and "cache_lookup ttl now (fst st) fp = Some v"
  shows "cache_lookup ttl now (fst st') fp = Some v"
  using assms
proof (induction ss arbitrary: st res st')
  case Nil
  then show ?case by simp
next
  case (Cons s ss)
  obtain a st1 where f: "cached_fetch ttl now net (r, s) st = (a, st1)"
    by (cases "cached_fetch ttl now net (r, s) st")
  obtain rest st2 where g: "fetch_sources ttl now net r ss st1 = (rest, st2)"
    by (cases "fetch_sources ttl now net r ss st1")
  from Cons.prems(1) f g have "st' = st2" by simp
  moreover from f Cons.prems(2) have "cache_lookup ttl now (fst st1) fp = Some v"
    by (rule cached_fetch_keeps)
  ultimately show ?case using Cons.IH [OF g] by simp
qed

lemma fetch_sources_stores:
  assumes "0 < ttl" "fetch_sources ttl now net r ss st = (res, st')"
    and "list_all (\<lambda>sa. cacheable (snd sa)) res"
  shows "res = map (\<lambda>s. (s, answer_of (the (cache_lookup ttl now (fst st') (r, s))))) ss \<and>
         (\<forall>s \<in> set ss. cache_lookup ttl now (fst st') (r, s) \<noteq> None)"
  using assms(2,3)
proof (induction ss arbitrary: st res st')
  case Nil
  then show ?case by simp
next
  case (Cons s ss)
  obtain a st1 where f: "cached_fetch ttl now net (r, s) st = (a, st1)"
    by (cases "cached_fetch ttl now net (r, s) st")
  obtain rest st2 where g: "fetch_sources ttl now net r ss st1 = (rest, st2)"
    by (cases "fetch_sources ttl now net r ss st1")
  from Cons.prems(1) f g have res: "res = (s, a) # rest" and st': "st' = st2" by simp_all
  from Cons.prems(2) res have ca: "cacheable a" and cr: "list_all (\<lambda>sa. cacheable (snd sa)) rest"
    by simp_all
  from cached_fetch_stores [OF assms(1) f ca]
  obtain v where v: "cache_lookup ttl now (fst st1) (r, s) = Some v" "answer_of v = a"
    by blast
  from g v(1) have "cache_lookup ttl now (fst st2) (r, s) = Some v"
    by (rule fetch_sources_keeps)
  with v(2) Cons.IH [OF g cr] res st' show ?case by simp
qed

lemma run_pipeline_keeps:
  assumes "run_pipeline ttl now net srcs rs st = (outs, st')"
    and "cache_lookup ttl now (fst st) fp = Some v"
  shows "cache_lookup ttl now (fst st') fp = Some v"
  using assms
proof (induction rs arbitrary: st outs st')
  case Nil
  then show ?case by simp
next
  case (Cons r rs)
  obtain out st1 where f: "fetch_sources ttl now net r srcs st = (out, st1)"
    by (cases "fetch_sources ttl now net r srcs st")
  obtain rest st2 where g: "run_pipeline ttl now net srcs rs st1 = (rest, st2)"
    by (cases "run_pipeline ttl now net srcs rs st1")
  from Cons.prems(1) f g have "st' = st2" by simp
  moreover from f Cons.prems(2) have "cache_lookup ttl now (fst st1) fp = Some v"
    by (rule fetch_sources_keeps)
  ultimately show ?case using Cons.IH [OF g] by simp
qed

lemma run_pipeline_stores:
  assumes "0 < ttl" "run_pipeline ttl now net srcs rs st = (outs, st')"
    and "list_all (\<lambda>ro. list_all (\<lambda>sa. cacheable (snd sa)) (snd ro)) outs"
  shows "outs = map (\<lambda>r. (r, map (\<lambda>s. (s, answer_of (the (cache_lookup ttl now (fst st') (r, s))))) srcs)) rs \<and>
         warm ttl now srcs rs (fst st')"
  using assms(2,3)
proof (induction rs arbitrary: st outs st')
  case Nil
  then show ?case by (simp add: warm_def)
next
  case (Cons r rs)
  obtain out st1 where f: "fetch_sources ttl now net r srcs st = (out, st1)"
    by (cases "fetch_sources ttl now net r srcs st")
  obtain rest st2 where g: "run_pipeline ttl now net srcs rs st1 = (rest, st2)"
    by (cases "run_pipeline ttl now net srcs rs st1")
  from Cons.prems(1) f g have outs: "outs = (r, out) # rest" and st': "st' = st2" by simp_all
  from Cons.prems(2) outs have co: "list_all (\<lambda>sa. cacheable (snd sa)) out"
    and cr: "list_all (\<lambda>ro. list_all (\<lambda>sa. cacheable (snd sa)) (snd ro)) rest"
    by simp_all
  note o = fetch_sources_stores [OF assms(1) f co]
  have live: "cache_lookup ttl now (fst st2) (r, s) = cache_lookup ttl now (fst st1) (r, s)"
    if "s \<in> set srcs" for s
  proof -
    from o that obtain v where "cache_lookup ttl now (fst st1) (r, s) = Some v" by auto
    with run_pipeline_keeps [OF g this] show ?thesis by simp
  qed
  from o have "out = map (\<lambda>s. (s, answer_of (the (cache_lookup ttl now (fst st2) (r, s))))) srcs"
    by (simp add: live cong: map_cong)
  moreover from o have "\<forall>s \<in> set srcs. cache_lookup ttl now (fst st2) (r, s) \<noteq> None"
    by (simp add: live)
  ultimately show ?case
    using Cons.IH [OF g cr] outs st' by (simp add: warm_def)
qed

lemma first_run_warms_cache:
  assumes "0 < ttl" "run_pipeline ttl now net srcs rs st = (outs, st')"
    and "list_all (\<lambda>ro. list_all (\<lambda>sa. cacheable (snd sa)) (snd ro)) outs"
  shows "warm ttl now srcs rs (fst st') \<and>
         run_pipeline ttl now net' srcs rs (fst st', 0) = (outs, (fst st', 0))"
proof -
  from run_pipeline_stores [OF assms]
  have o: "outs = map (\<lambda>r. (r, map (\<lambda>s. (s, answer_of (the (cache_lookup ttl now (fst st') (r, s))))) srcs)) rs"
    and w: "warm ttl now srcs rs (fst st')"
    by simp_all
  from run_pipeline_warm [OF w, of net' 0] o w show ?thesis by simp
qed

section \<open>The merger\<close>

lemma find_first:
  "\<forall>s \<in> set pre. \<not> P s \<Longrightarrow> P w \<Longrightarrow> find P (pre @ w # post) = Some w"
  by (induction pre) auto

lemma find_reports:
  assumes "reported ps f w"
  obtains p where "find (reports f w) ps = Some p" "p \<in> set ps" "reports f w p"
proof -
  from assms have "\<exists>p \<in> set ps. reports f w p"
    by (simp add: reported_def list_ex_iff)
  then have "find (reports f w) ps \<noteq> None" by (auto simp: find_None_iff)
  then obtain p where p: "find (reports f w) ps = Some p" by blast
  then have "p \<in> set ps" "reports f w p"
    by (auto simp: find_Some_iff)
  with p show ?thesis by (rule that)
qed

text \<open>
  C3. For a scalar field, when a source of the priority order reported the field and no
  source before it in the order did, the merged value is one that this source reported,
  and the provenance names it as the winner and lists every source that reported the
  field. In particular, a rating of 4.5 from Places and one of 3.0 from ReviewSite, under
  the order Places, ReviewSite, merge to 4.5 with both sources as reporters and Places as
  the winner.
\<close>

theorem merge_scalar_first_priority_wins:
  "(priority = pre @ w # post \<and> (\<forall>s \<in> set pre. \<not> reported ps f s) \<and> reported ps f w \<longrightarrow>
      (\<exists>v p. merge_scalar priority ps f =
                Some (v, \<lparr>reporters = {s. reported ps f s}, winner = w\<rparr>) \<and>
              p \<in> set ps \<and> source p = w \<and> map_of (field_values p) f = Some v)) \<and>
   merge_scalar [Places, ReviewSite]
     [\<lparr>source = Places, retrieved_at = 0, field_values = [(''rating'', NumV 4.5)]\<rparr>,
      \<lparr>source = ReviewSite, retrieved_at = 0, field_values = [(''rating'', NumV 3.0)]\<rparr>]
     ''rating'' =
   Some (NumV 4.5, \<lparr>reporters = {Places, ReviewSite}, winner = Places\<rparr>)"
proof (intro conjI impI)
  assume a: "priority = pre @ w # post \<and> (\<forall>s \<in> set pre. \<not> reported ps f s) \<and> reported ps f w"
  then have fw: "find (reported ps f) priority = Some w"
    by (simp add: find_first)
  from a obtain p where p: "find (reports f w) ps = Some p" "p \<in> set ps" "reports f w p"
    by (auto elim: find_reports)
  from p(3) obtain v where v: "source p = w" "map_of (field_values p) f = Some v"
    by (auto simp: reports_def)
  have r: "set (map source (filter (\<lambda>q. map_of (field_values q) f \<noteq> None) ps)) =
      {s. reported ps f s}"
    by (auto simp: reported_def reports_def list_ex_iff)
  have "merge_scalar priority ps f = Some (v, \<lparr>reporters = {s. reported ps f s}, winner = w\<rparr>)"
    using fw p(1) v(2) r by (simp add: merge_scalar_def)
  with p(2) v show "\<exists>v p. merge_scalar priority ps f =
                Some (v, \<lparr>reporters = {s. reported ps f s}, winner = w\<rparr>) \<and>
              p \<in> set ps \<and> source p = w \<and> map_of (field_values p) f = Some v"
    by blast
next
  show "merge_scalar [Places, ReviewSite]
     [\<lparr>source = Places, retrieved_at = 0, field_values = [(''rating'', NumV 4.5)]\<rparr>,
      \<lparr>source = ReviewSite, retrieved_at = 0, field_values = [(''rating'', NumV 3.0)]\<rparr>]
     ''rating'' =
   Some (NumV 4.5, \<lparr>reporters = {Places, ReviewSite}, winner = Places\<rparr>)"
    by (simp add: merge_scalar_def reported_def reports_def)
qed

theorem merge_scalar_first_priority_wins_witness:
  "[Places, ReviewSite] = [] @ Places # [ReviewSite] \<and>
   reported
     [\<lparr>source = Places, retrieved_at = 0, field_values = [(''rating'', NumV 4.5)]\<rparr>,
      \<lparr>source = ReviewSite, retrieved_at = 0, field_values = [(''rating'', NumV 3.0)]\<rparr>]
     ''rating'' Places \<and>
   (\<exists>v p. merge_scalar [Places, ReviewSite]
       [\<lparr>source = Places, retrieved_at = 0, field_values = [(''rating'', NumV 4.5)]\<rparr>,
        \<lparr>source = ReviewSite, retrieved_at = 0, field_values = [(''rating'', NumV 3.0)]\<rparr>]
       ''rating'' =
       Some (v, \<lparr>reporters =
                   {s. reported
                      [\<lparr>source = Places, retrieved_at = 0, field_values = [(''rating'', NumV 4.5)]\<rparr>,
                       \<lparr>source = ReviewSite, retrieved_at = 0, field_values = [(''rating'', NumV 3.0)]\<rparr>]
                      ''rating'' s},
                 winner = Places\<rparr>) \<and>
      p \<in> set [\<lparr>source = Places, retrieved_at = 0, field_values = [(''rating'', NumV 4.5)]\<rparr>,
               \<lparr>source = ReviewSite, retrieved_at = 0, field_values = [(''rating'', NumV 3.0)]\<rparr>] \<and>
      source p = Places \<and> map_of (field_values p) ''rating'' = Some v)"
proof -
  let ?ps = "[\<lparr>source = Places, retrieved_at = 0, field_values = [(''rating'', NumV 4.5)]\<rparr>,
              \<lparr>source = ReviewSite, retrieved_at = 0, field_values = [(''rating'', NumV 3.0)]\<rparr>]"
  have a: "[Places, ReviewSite] = [] @ Places # [ReviewSite]" by simp
  have b: "\<forall>s \<in> set ([] :: source_id list). \<not> reported ?ps ''rating'' s" by simp
  have c: "reported ?ps ''rating'' Places" by (simp add: reported_def reports_def)
  from merge_scalar_first_priority_wins
    [where priority = "[Places, ReviewSite]" and pre = "[]" and w = Places
       and post = "[ReviewSite]" and ps = ?ps and f = "''rating''", THEN conjunct1, THEN mp,
     OF conjI [OF a conjI [OF b c]]]
  have "\<exists>v p. merge_scalar [Places, ReviewSite] ?ps ''rating'' =
       Some (v, \<lparr>reporters = {s. reported ?ps ''rating'' s}, winner = Places\<rparr>) \<and>
      p \<in> set ?ps \<and> source p = Places \<and> map_of (field_values p) ''rating'' = Some v" .
  with a c show ?thesis by (intro conjI)
qed


end
